theory Spec2Isabelle
  imports Main "HOL-Library.Multiset"
begin

section \<open>Python strings\<close>

text \<open>
  The analyzer works on Python \<open>str\<close> values. They are modelled as \<^typ>\<open>string\<close>, a
  character being a code point below 256. Whitespace is what \<open>str.isspace\<close> and the
  regular expression class \<open>\s\<close> accept in that range; letter case and the word class
  \<open>\w\<close> are modelled for the ASCII letters, digits and the underscore, so the model
  follows the program on ASCII text (with the no-break space the program mentions).
\<close>

definition dquote :: char where
  "dquote = CHR 0x22"

definition isspace :: "char \<Rightarrow> bool" where
  "isspace c = (let n = (of_char c :: nat)
                in (9 \<le> n \<and> n \<le> 13) \<or> (28 \<le> n \<and> n \<le> 32) \<or> n = 133 \<or> n = 160)"

definition isdigit :: "char \<Rightarrow> bool" where
  "isdigit c = (let n = (of_char c :: nat) in 48 \<le> n \<and> n \<le> 57)"

definition isupper :: "char \<Rightarrow> bool" where
  "isupper c = (let n = (of_char c :: nat) in 65 \<le> n \<and> n \<le> 90)"

definition islower :: "char \<Rightarrow> bool" where
  "islower c = (let n = (of_char c :: nat) in 97 \<le> n \<and> n \<le> 122)"

definition lower_char :: "char \<Rightarrow> char" where
  "lower_char c = (if isupper c then char_of (of_char c + (32 :: nat)) else c)"

definition upper_char :: "char \<Rightarrow> char" where
  "upper_char c = (if islower c then char_of (of_char c - (32 :: nat)) else c)"

text \<open>\<open>s.lower()\<close> and \<open>s.upper()\<close>.\<close>

definition lower :: "string \<Rightarrow> string" where
  "lower s = map lower_char s"

definition upper :: "string \<Rightarrow> string" where
  "upper s = map upper_char s"

text \<open>\<open>s.strip()\<close> and \<open>s.strip('"')\<close>.\<close>

definition rstrip_with :: "(char \<Rightarrow> bool) \<Rightarrow> string \<Rightarrow> string" where
  "rstrip_with P s = rev (dropWhile P (rev s))"

definition strip_with :: "(char \<Rightarrow> bool) \<Rightarrow> string \<Rightarrow> string" where
  "strip_with P s = rstrip_with P (dropWhile P s)"

definition strip :: "string \<Rightarrow> string" where
  "strip s = strip_with isspace s"

definition strip_quotes :: "string \<Rightarrow> string" where
  "strip_quotes s = strip_with (\<lambda>c. c = dquote) s"

text \<open>\<open>s.startswith(p)\<close>, \<open>s.endswith(p)\<close>, and \<open>s.find(sub)\<close> with \<open>None\<close> for -1.\<close>

definition startswith :: "string \<Rightarrow> string \<Rightarrow> bool" where
  "startswith s p = (take (length p) s = p)"

definition endswith :: "string \<Rightarrow> string \<Rightarrow> bool" where
  "endswith s p = startswith (rev s) (rev p)"

fun str_find :: "string \<Rightarrow> string \<Rightarrow> nat option" where
  "str_find [] sub = (if sub = [] then Some 0 else None)"
| "str_find (c # cs) sub =
     (if startswith (c # cs) sub then Some 0 else map_option Suc (str_find cs sub))"

text \<open>\<open>sep.join(parts)\<close>.\<close>

fun join :: "string \<Rightarrow> string list \<Rightarrow> string" where
  "join sep [] = []"
| "join sep [p] = p"
| "join sep (p # q # ps) = p @ sep @ join sep (q # ps)"

text \<open>\<open>s.replace(a, new)\<close> for a single character \<open>a\<close>.\<close>

definition replace_char :: "char \<Rightarrow> string \<Rightarrow> string \<Rightarrow> string" where
  "replace_char a new s = concat (map (\<lambda>c. if c = a then new else [c]) s)"

subsection \<open>What \<open>float(token)\<close> accepts\<close>

text \<open>
  \<open>float\<close> raises \<open>ValueError\<close> unless its argument, with surrounding whitespace
  removed, is \<open>[sign] (floatnumber | "inf" | "infinity" | "nan")\<close>, where a digit part
  is \<open>digit (["_"] digit)*\<close>, a number is \<open>[digitpart] "." digitpart | digitpart ["."]\<close>
  and an exponent is \<open>("e" | "E") [sign] digitpart\<close>. The whitespace \<open>float\<close> removes
  leaves the four ASCII separators 0x1c to 0x1f in place.
\<close>

definition float_space :: "char \<Rightarrow> bool" where
  "float_space c = (isspace c \<and> \<not> (let n = (of_char c :: nat) in 28 \<le> n \<and> n \<le> 31))"

fun skip_digitpart_rest :: "string \<Rightarrow> string" where
  "skip_digitpart_rest (c # d # cs) =
     (if isdigit c then skip_digitpart_rest (d # cs)
      else if c = CHR ''_'' \<and> isdigit d then skip_digitpart_rest (d # cs)
      else c # d # cs)"
| "skip_digitpart_rest [c] = (if isdigit c then [] else [c])"
| "skip_digitpart_rest [] = []"

text \<open>The rest of the string after a leading digit part, if there is one.\<close>

definition skip_digitpart :: "string \<Rightarrow> string option" where
  "skip_digitpart s =
     (case s of [] \<Rightarrow> None
      | c # cs \<Rightarrow> if isdigit c then Some (skip_digitpart_rest cs) else None)"

definition skip_sign :: "string \<Rightarrow> string" where
  "skip_sign s = (case s of [] \<Rightarrow> []
                  | c # cs \<Rightarrow> if c = CHR ''+'' \<or> c = CHR ''-'' then cs else c # cs)"

definition is_exponent_or_end :: "string \<Rightarrow> bool" where
  "is_exponent_or_end s =
     (case s of [] \<Rightarrow> True
      | c # cs \<Rightarrow> (c = CHR ''e'' \<or> c = CHR ''E'') \<and> skip_digitpart (skip_sign cs) = Some [])"

definition is_floatnumber :: "string \<Rightarrow> bool" where
  "is_floatnumber s =
     (case skip_digitpart s of
        Some r \<Rightarrow>
          (case r of
             [] \<Rightarrow> True
           | c # cs \<Rightarrow>
               if c = CHR ''.'' then
                 (case skip_digitpart cs of
                    Some r' \<Rightarrow> is_exponent_or_end r'
                  | None \<Rightarrow> is_exponent_or_end cs)
               else is_exponent_or_end r)
      | None \<Rightarrow>
          (case s of
             [] \<Rightarrow> False
           | c # cs \<Rightarrow>
               c = CHR ''.'' \<and>
               (case skip_digitpart cs of Some r' \<Rightarrow> is_exponent_or_end r' | None \<Rightarrow> False)))"

definition float_parses :: "string \<Rightarrow> bool" where
  "float_parses s =
     (let t = skip_sign (strip_with float_space s)
      in lower t \<in> {''inf'', ''infinity'', ''nan''} \<or> is_floatnumber t)"

section \<open>Vocabularies and patterns\<close>

definition REGIONS :: "string list" where
  "REGIONS = [''Nigeria'', ''Ghana'', ''South Africa'', ''Kenya'', ''Tanzania'']"

definition REGION_SET :: "string set" where
  "REGION_SET = set REGIONS"

definition PROVIDERS :: "string set" where
  "PROVIDERS = {''cellulant'', ''hubtel'', ''interswitch'', ''ozow'', ''paystack'',
                ''spotflow_accounts'', ''tembo_plus''}"

definition STATUSES :: "string set" where
  "STATUSES = {''successful'', ''failed'', ''abandoned'', ''cancelled'', ''inprogress''}"

definition CHANNELS :: "string set" where
  "CHANNELS = {''card'', ''bank_transfer'', ''eft'', ''mobile_money''}"

definition DEFAULT_TZ_SUFFIX :: string where
  "DEFAULT_TZ_SUFFIX = ''+00:00''"

definition DEFAULT_DATE_PLACEHOLDER :: string where
  "DEFAULT_DATE_PLACEHOLDER = ''<missing-date>''"

definition BLANK_MESSAGE :: string where
  "BLANK_MESSAGE = ''<blank>''"

text \<open>\<open>ISO_PATTERN.match(s)\<close> for the pattern \<open>^\d{4}-\d{2}-\d{2}T\<close>.\<close>

definition ISO_PATTERN_match :: "string \<Rightarrow> bool" where
  "ISO_PATTERN_match s =
     (11 \<le> length s \<and> list_all isdigit (take 4 s) \<and> s ! 4 = CHR ''-'' \<and>
      list_all isdigit (take 2 (drop 5 s)) \<and> s ! 7 = CHR ''-'' \<and>
      list_all isdigit (take 2 (drop 8 s)) \<and> s ! 10 = CHR ''T'')"

section \<open>Boundary scanner\<close>

text \<open>
  \<open>_find_next_provider_index(row, start)\<close>: the first index \<open>idx\<close> of
  \<open>range(start, len(row) - 1)\<close> where a provider is followed by a region.
\<close>

definition is_boundary :: "string list \<Rightarrow> nat \<Rightarrow> bool" where
  "is_boundary row idx =
     (let provider = lower (strip (row ! idx)); region = strip (row ! (idx + 1))
      in provider \<in> PROVIDERS \<and> region \<in> REGION_SET)"

definition find_next_provider_index :: "string list \<Rightarrow> nat \<Rightarrow> nat option" where
  "find_next_provider_index row start = List.find (is_boundary row) [start ..< length row - 1]"

section \<open>Field extractor\<close>

text \<open>
  A candidate is the tuple the generator yields:
  (provider, region, status, channel, message, payment date, customer).
\<close>

type_synonym candidate = "string \<times> string \<times> string \<times> string \<times> string \<times> string \<times> string"

definition cand_provider :: "candidate \<Rightarrow> string" where
  "cand_provider c = (case c of (provider, region, status, channel, message, payment_date, customer) \<Rightarrow> provider)"

definition cand_region :: "candidate \<Rightarrow> string" where
  "cand_region c = (case c of (provider, region, status, channel, message, payment_date, customer) \<Rightarrow> region)"

definition cand_status :: "candidate \<Rightarrow> string" where
  "cand_status c = (case c of (provider, region, status, channel, message, payment_date, customer) \<Rightarrow> status)"

definition cand_channel :: "candidate \<Rightarrow> string" where
  "cand_channel c = (case c of (provider, region, status, channel, message, payment_date, customer) \<Rightarrow> channel)"


definition cand_payment_date :: "candidate \<Rightarrow> string" where
  "cand_payment_date c = (case c of (provider, region, status, channel, message, payment_date, customer) \<Rightarrow> payment_date)"


text \<open>
  The loop collecting customer tokens: it stops at the first status token or at the
  end of the row, and returns the index reached and the non-empty tokens passed.
\<close>

function customer_loop :: "string list \<Rightarrow> nat \<Rightarrow> string list \<Rightarrow> nat \<times> string list" where
  "customer_loop row idx customer_parts =
     (if idx < length row \<and> lower (strip (row ! idx)) \<notin> STATUSES
      then customer_loop row (Suc idx)
             (if strip (row ! idx) \<noteq> [] then customer_parts @ [strip (row ! idx)]
              else customer_parts)
      else (idx, customer_parts))"
  by pat_completeness auto
termination
  by (relation "measure (\<lambda>(row, idx, customer_parts). length row - idx)") auto

declare customer_loop.simps [simp del]

text \<open>The loop skipping to the channel token.\<close>

function channel_loop :: "string list \<Rightarrow> nat \<Rightarrow> nat" where
  "channel_loop row idx =
     (if idx < length row \<and> lower (strip (row ! idx)) \<notin> CHANNELS
      then channel_loop row (Suc idx)
      else idx)"
  by pat_completeness auto
termination
  by (relation "measure (\<lambda>(row, idx). length row - idx)") auto

declare channel_loop.simps [simp del]

text \<open>The nested helper \<open>_is_number\<close>.\<close>

definition is_number :: "string \<Rightarrow> bool" where
  "is_number token =
     (if token = [] then False else float_parses (replace_char CHR '','' [] token))"

text \<open>
  One round of the message loop at index \<open>idx < len(row)\<close>: the token is the payment
  date, or the loop breaks without consuming it, or the raw token joins the message.
\<close>

datatype message_step = Date string | Break | Append

definition message_step :: "string list \<Rightarrow> nat \<Rightarrow> message_step" where
  "message_step row idx =
     (let raw = row ! idx; stripped = strip raw
      in if ISO_PATTERN_match stripped then Date stripped
         else
           let lower' = lower stripped; lookahead = find_next_provider_index row idx
           in if lookahead \<noteq> None \<and> lookahead = Some idx then Break
              else if lower' \<in> PROVIDERS \<or> stripped \<in> REGION_SET then Break
              else if CHR ''@'' \<in> set stripped \<or> lower' \<in> STATUSES \<or> lower' \<in> CHANNELS
                   then Break
              else
                let next_token = (if idx + 1 < length row then strip (row ! (idx + 1)) else [])
                in if next_token \<noteq> [] \<and> is_number next_token then Break else Append)"

text \<open>The message loop returns the index reached, the message parts and the payment date.\<close>

function message_loop :: "string list \<Rightarrow> nat \<Rightarrow> string list \<Rightarrow> nat \<times> string list \<times> string" where
  "message_loop row idx message_parts =
     (if idx < length row then
        (case message_step row idx of
           Date d \<Rightarrow> (Suc idx, message_parts, d)
         | Break \<Rightarrow> (idx, message_parts, [])
         | Append \<Rightarrow> message_loop row (Suc idx) (message_parts @ [row ! idx]))
      else (idx, message_parts, []))"
  by pat_completeness auto
termination
  by (relation "measure (\<lambda>(row, idx, message_parts). length row - idx)") auto

declare message_loop.simps [simp del]

text \<open>
  The customer is the first part containing \<open>@\<close>, else the first part, else empty;
  then stripped of whitespace and of double quotes.
\<close>

definition pick_customer :: "string list \<Rightarrow> string" where
  "pick_customer customer_parts =
     (let customer = (case List.find (\<lambda>token. CHR ''@'' \<in> set token) customer_parts of
                        Some token \<Rightarrow> token | None \<Rightarrow> []);
          customer = (if customer = [] \<and> customer_parts \<noteq> [] then hd customer_parts
                      else customer)
      in strip_quotes (strip customer))"

text \<open>
  One of the two truncation loops over a vocabulary, in the order \<open>tokens\<close> the set is
  iterated in: the message is cut at the first marker \<open>","+token\<close> found in its lowercase
  form, and the loop breaks.
\<close>

fun truncate_at_first :: "string list \<Rightarrow> string \<Rightarrow> string" where
  "truncate_at_first [] message = message"
| "truncate_at_first (token # tokens) message =
     (case str_find (lower message) (CHR '','' # token) of
        Some pos \<Rightarrow> take pos message
      | None \<Rightarrow> truncate_at_first tokens message)"

text \<open>
  The post-processing of the joined message. \<open>PROVIDERS\<close> and \<open>REGION_SET\<close> are Python
  sets; the order they are iterated in is not fixed by the language, so it is a parameter:
  \<open>ps\<close> lists the providers and \<open>rs\<close> the regions in iteration order.
\<close>

definition truncate_message :: "string list \<Rightarrow> string list \<Rightarrow> string \<Rightarrow> string" where
  "truncate_message ps rs message =
     truncate_at_first (map lower rs) (truncate_at_first ps message)"

definition postprocess_message :: "string list \<Rightarrow> string list \<Rightarrow> string list \<Rightarrow> string" where
  "postprocess_message ps rs message_parts =
     (let message = strip (join '','' message_parts);
          message = (if message \<noteq> [] then truncate_message ps rs message else message)
      in if startswith message [dquote] \<and> endswith message [dquote]
         then butlast (tl message) else message)"

text \<open>
  The body of the main loop at a boundary \<open>provider_idx\<close>: \<open>None\<close> when the row ends
  before a status or a channel is found (the \<open>continue\<close> branches), else the candidate
  yielded and the index \<open>idx\<close> the scan resumes from.
\<close>

definition extract_at ::
  "string list \<Rightarrow> string list \<Rightarrow> string list \<Rightarrow> string \<Rightarrow> nat \<Rightarrow> (candidate \<times> nat) option" where
  "extract_at ps rs row default_dt provider_idx =
     (let n = length row;
          provider = lower (strip (row ! provider_idx));
          region = strip (row ! (provider_idx + 1));
          (idx, customer_parts) = customer_loop row (provider_idx + 2) []
      in if idx \<ge> n then None
         else
           let status = lower (strip (row ! idx));
               idx = channel_loop row (idx + 1)
           in if idx \<ge> n then None
              else
                let channel = lower (strip (row ! idx));
                    idx = idx + 1;
                    idx = (if idx < n \<and> lower (strip (row ! idx)) \<in> {''live'', ''test''}
                           then idx + 1 else idx);
                    customer = pick_customer customer_parts;
                    (idx, message_parts, payment_date) = message_loop row idx [];
                    message = postprocess_message ps rs message_parts;
                    payment_date = (if payment_date \<noteq> [] then payment_date else default_dt)
                in Some ((provider, region, status, channel, message, payment_date, customer),
                         idx))"

text \<open>
  The main loop of \<open>extract_transactions\<close> from scan position \<open>i\<close>. Each boundary tried
  is recorded with what came of it: \<open>None\<close> for an incomplete candidate (the scan goes on
  at \<open>provider_idx + 1\<close>), or the candidate yielded and the index the scan goes on at.
\<close>

type_synonym attempt = "nat \<times> (candidate \<times> nat) option"

definition boundary_of :: "attempt \<Rightarrow> nat" where
  "boundary_of a = fst a"

definition resume_of :: "attempt \<Rightarrow> nat" where
  "resume_of a = (case snd a of None \<Rightarrow> fst a + 1 | Some (c, idx) \<Rightarrow> idx)"

subsection \<open>The loops only move forward\<close>

lemma find_next_provider_index_Some:
  assumes "find_next_provider_index row start = Some p"
  shows "start \<le> p" and "p + 1 < length row" and "is_boundary row p"
proof -
  from assms obtain k where k: "k < length [start ..< length row - 1]"
    and p: "p = [start ..< length row - 1] ! k" and b: "is_boundary row ([start ..< length row - 1] ! k)"
    unfolding find_next_provider_index_def find_Some_iff by blast
  from k have "p = start + k" and "start + k < length row - 1"
    using p by simp_all
  then show "start \<le> p" and "p + 1 < length row" by simp_all
  from b p show "is_boundary row p" by simp
qed

lemma customer_loop_forward:
  "customer_loop row idx customer_parts = (j, parts) \<Longrightarrow> idx \<le> j"
proof (induction row idx customer_parts rule: customer_loop.induct)
  case (1 row idx customer_parts)
  show ?case
  proof (cases "idx < length row \<and> lower (strip (row ! idx)) \<notin> STATUSES")
    case True
    with "1.prems" have "customer_loop row (Suc idx)
        (if strip (row ! idx) \<noteq> [] then customer_parts @ [strip (row ! idx)] else customer_parts)
        = (j, parts)"
      by (subst (asm) customer_loop.simps) simp
    with "1.IH" True have "Suc idx \<le> j" by blast
    then show ?thesis by simp
  next
    case False
    with "1.prems" show ?thesis
      by (subst (asm) customer_loop.simps) auto
  qed
qed

lemma channel_loop_forward: "idx \<le> channel_loop row idx"
proof (induction row idx rule: channel_loop.induct)
  case (1 row idx)
  show ?case
  proof (cases "idx < length row \<and> lower (strip (row ! idx)) \<notin> CHANNELS")
    case True
    then have "channel_loop row idx = channel_loop row (Suc idx)"
      by (subst channel_loop.simps) simp
    with "1.IH" True show ?thesis by fastforce
  next
    case False
    then show ?thesis
      by (subst channel_loop.simps) auto
  qed
qed

lemma message_loop_forward:
  "message_loop row idx message_parts = (j, parts, d) \<Longrightarrow> idx \<le> j"
proof (induction row idx message_parts rule: message_loop.induct)
  case (1 row idx message_parts)
  show ?case
  proof (cases "idx < length row")
    case True
    show ?thesis
    proof (cases "message_step row idx")
      case (Date x)
      with True "1.prems" show ?thesis
        by (subst (asm) message_loop.simps) auto
    next
      case Break
      with True "1.prems" show ?thesis
        by (subst (asm) message_loop.simps) auto
    next
      case Append
      with True "1.prems" have "message_loop row (Suc idx) (message_parts @ [row ! idx]) = (j, parts, d)"
        by (subst (asm) message_loop.simps) simp
      with "1.IH" True Append have "Suc idx \<le> j" by blast
      then show ?thesis by simp
    qed
  next
    case False
    with "1.prems" show ?thesis
      by (subst (asm) message_loop.simps) auto
  qed
qed

lemma extract_at_forward:
  assumes "extract_at ps rs row default_dt provider_idx = Some (c, idx)"
  shows "provider_idx + 4 \<le> idx"
proof -
  obtain i1 parts where cl: "customer_loop row (provider_idx + 2) [] = (i1, parts)"
    by (cases "customer_loop row (provider_idx + 2) []")
  define i2 where "i2 = channel_loop row (i1 + 1)"
  define i3 where "i3 = (if i2 + 1 < length row \<and> lower (strip (row ! (i2 + 1))) \<in> {''live'', ''test''}
                         then i2 + 1 + 1 else i2 + 1)"
  obtain i4 mparts d where ml: "message_loop row i3 [] = (i4, mparts, d)"
    by (cases "message_loop row i3 []")
  from assms cl ml have "idx = i4"
    unfolding extract_at_def i3_def i2_def
    by (simp add: Let_def split: if_splits)
  moreover have "provider_idx + 2 \<le> i1" using customer_loop_forward [OF cl] .
  moreover have "i1 + 1 \<le> i2" unfolding i2_def by (rule channel_loop_forward)
  moreover have "i2 + 1 \<le> i3" unfolding i3_def by simp
  moreover have "i3 \<le> i4" using message_loop_forward [OF ml] .
  ultimately show ?thesis by simp
qed

subsection \<open>The main loop\<close>

function scan ::
  "string list \<Rightarrow> string list \<Rightarrow> string list \<Rightarrow> string \<Rightarrow> nat \<Rightarrow> attempt list" where
  "scan ps rs row default_dt i =
     (if i < length row then
        (case find_next_provider_index row i of
           None \<Rightarrow> []
         | Some provider_idx \<Rightarrow>
             (case extract_at ps rs row default_dt provider_idx of
                None \<Rightarrow> (provider_idx, None) # scan ps rs row default_dt (provider_idx + 1)
              | Some (c, idx) \<Rightarrow> (provider_idx, Some (c, idx)) # scan ps rs row default_dt idx))
      else [])"
  by pat_completeness auto
termination
proof (relation "measure (\<lambda>(ps, rs, row, default_dt, i). length row - i)", goal_cases)
  case 1
  show ?case by simp
next
  case (2 ps rs row default_dt i provider_idx)
  then show ?case
    using find_next_provider_index_Some(1) [of row i provider_idx] by simp
next
  case (3 ps rs row default_dt i provider_idx x2 c idx)
  then show ?case
    using find_next_provider_index_Some(1) [of row i provider_idx]
      extract_at_forward [of ps rs row default_dt provider_idx c idx] by simp
qed

declare scan.simps [simp del]

text \<open>\<open>extract_transactions(row, default_dt)\<close>: the candidates yielded, in order.\<close>

definition extract_transactions ::
  "string list \<Rightarrow> string list \<Rightarrow> string list \<Rightarrow> string \<Rightarrow> candidate list" where
  "extract_transactions ps rs row default_dt =
     List.map_filter (\<lambda>a. map_option fst (snd a)) (scan ps rs row default_dt 0)"

section \<open>Message normalizer\<close>

text \<open>\<open>message.replace("\r\n", "\n")\<close> and \<open>cleaned.split("\n", 1)[0]\<close>.\<close>

fun replace_crlf :: "string \<Rightarrow> string" where
  "replace_crlf (c # d # cs) =
     (if c = CHR 0x0D \<and> d = CHR 0x0A then CHR 0x0A # replace_crlf cs
      else c # replace_crlf (d # cs))"
| "replace_crlf cs = cs"

definition first_line_of :: "string \<Rightarrow> string" where
  "first_line_of s = takeWhile (\<lambda>c. c \<noteq> CHR 0x0A) s"

text \<open>
  Lines 62 to 66: one layer of wrapping double quotes is removed when the line begins
  and ends with one, then double quotes are stripped from both ends.
\<close>

definition unwrap_quotes :: "string \<Rightarrow> string" where
  "unwrap_quotes first_line =
     (let first_line =
            (if startswith first_line [dquote] \<and> endswith first_line [dquote] \<and>
                length first_line > 1
             then strip (butlast (tl first_line)) else first_line)
      in strip (strip_quotes first_line))"

text \<open>\<open>re.sub(r"\s+", " ", s)\<close>: every maximal run of whitespace becomes one space.\<close>

function collapse_whitespace :: "string \<Rightarrow> string" where
  "collapse_whitespace [] = []"
| "collapse_whitespace (c # cs) =
     (if isspace c then CHR '' '' # collapse_whitespace (dropWhile isspace cs)
      else c # collapse_whitespace cs)"
  by pat_completeness auto
termination
  by (relation "measure length") (auto simp: length_dropWhile_le less_Suc_eq_le)

text \<open>
  \<open>re.split(r'"\s*,', s, maxsplit=1)\<close>: the text before the leftmost double quote that
  is followed, after any whitespace, by a comma; \<open>None\<close> when the split has one part.
\<close>

fun stray_split :: "string \<Rightarrow> string option" where
  "stray_split [] = None"
| "stray_split (c # cs) =
     (if c = dquote \<and> startswith (dropWhile isspace cs) '',''
      then Some [] else map_option ((#) c) (stray_split cs))"

text \<open>\<open>re.sub(r'[\s,;:."-]+$', '', s)\<close>: the trailing run of the class is removed.\<close>

definition is_trailing_punct :: "char \<Rightarrow> bool" where
  "is_trailing_punct c =
     (isspace c \<or> c \<in> {CHR '','', CHR '';'', CHR '':'', CHR ''.'', dquote, CHR ''-''})"

definition strip_trailing_punct :: "string \<Rightarrow> string" where
  "strip_trailing_punct s = rstrip_with is_trailing_punct s"

text \<open>\<open>s.title()\<close>: a letter is capitalised unless it follows a letter.\<close>

fun title_from :: "bool \<Rightarrow> string \<Rightarrow> string" where
  "title_from previous_is_cased [] = []"
| "title_from previous_is_cased (c # cs) =
     (if islower c then (if previous_is_cased then c else upper_char c) # title_from True cs
      else if isupper c then (if previous_is_cased then lower_char c else c) # title_from True cs
      else c # title_from False cs)"

definition title :: "string \<Rightarrow> string" where
  "title s = title_from False s"

text \<open>Lines 82 to 88: underscores become spaces, an all-uppercase text is title-cased.\<close>

definition convert_underscores :: "string \<Rightarrow> string" where
  "convert_underscores first_line =
     (if CHR ''_'' \<in> set first_line then
        (let candidate = strip (replace_char CHR ''_'' '' '' first_line)
         in if candidate \<noteq> [] then
              (if upper first_line = first_line then title candidate else candidate)
            else first_line)
      else first_line)"

text \<open>
  The steps up to line 88: \<open>None\<close> where the function returns \<open>BLANK_MESSAGE\<close>, else
  the value of \<open>first_line\<close> reached.
\<close>

definition cleanup :: "string \<Rightarrow> string option" where
  "cleanup message =
     (let cleaned = strip (replace_crlf message)
      in if cleaned = [] \<or> cleaned \<in> {'','', '',,'', [dquote, dquote], [CHR 0x27, CHR 0x27]}
         then None
         else
           let first_line = strip (first_line_of cleaned);
               first_line = unwrap_quotes first_line
           in if first_line = [] \<or> first_line \<in> {'','', '',,'', ''.'', ''-''} then None
              else
                let first_line = replace_char (CHR 0xA0) '' '' first_line;
                    first_line = strip (collapse_whitespace first_line);
                    first_line = (case stray_split first_line of
                                    Some part \<Rightarrow> if strip part \<noteq> [] then strip part
                                                   else first_line
                                  | None \<Rightarrow> first_line);
                    first_line = strip (strip_trailing_punct first_line)
                in Some (convert_underscores first_line))"

text \<open>The prompts of lines 92 to 97.\<close>

definition otp_patterns :: "string list" where
  "otp_patterns = [''kindly enter the otp'', ''please enter the otp'', ''please input the otp'']"

definition is_otp_prompt :: "string \<Rightarrow> bool" where
  "is_otp_prompt first_line_lower = list_ex (startswith first_line_lower) otp_patterns"

text \<open>
  The regular expressions of lines 101 to 110 work on words, the maximal runs of word
  characters: \<open>\b[A-Z]{2,}\b\<close> matches the words made of two or more capitals, and
  \<open>\b\<close>\,word\,\<open>\b\<close> matches the words equal to that word. \<open>segments\<close> cuts a text into
  its maximal runs of word characters and of other characters.
\<close>

definition is_word_char :: "char \<Rightarrow> bool" where
  "is_word_char c = (isupper c \<or> islower c \<or> isdigit c \<or> c = CHR ''_'')"

fun segments :: "string \<Rightarrow> string list" where
  "segments [] = []"
| "segments (c # cs) =
     (case segments cs of
        [] \<Rightarrow> [[c]]
      | seg # segs \<Rightarrow>
          if is_word_char c = is_word_char (hd seg) then (c # seg) # segs
          else [c] # seg # segs)"

definition is_acronym :: "string \<Rightarrow> bool" where
  "is_acronym w = (list_all isupper w \<and> 2 \<le> length w \<and> length w \<le> 4)"

definition uppercase_tokens :: "string \<Rightarrow> string list" where
  "uppercase_tokens first_line = remdups (filter is_acronym (segments first_line))"

text \<open>\<open>re.sub(r"\b" + re.escape(token.lower()) + r"\b", token, text)\<close>.\<close>

definition reinsert_token :: "string \<Rightarrow> string \<Rightarrow> string" where
  "reinsert_token token text =
     concat (map (\<lambda>seg. if seg = lower token then token else seg) (segments text))"

text \<open>Line 112: \<open>s[:1].upper() + s[1:]\<close>, and the empty text for the empty text.\<close>

definition capitalise :: "string \<Rightarrow> string" where
  "capitalise s = (case s of [] \<Rightarrow> [] | c # cs \<Rightarrow> upper_char c # cs)"

text \<open>
  Lines 90 to 114. The tokens are distinct words, and putting one back leaves the others
  as they are, so the order in which the set \<open>uppercase_tokens\<close> is iterated does not
  show; the model takes the tokens in one fixed order.
\<close>

definition finish :: "string \<Rightarrow> string" where
  "finish first_line =
     (let first_line_lower = lower first_line
      in if is_otp_prompt first_line_lower then ''OTP verification required''
         else
           let first_line_lower = fold reinsert_token (uppercase_tokens first_line) first_line_lower
           in capitalise first_line_lower)"

definition normalise_message :: "string \<Rightarrow> string" where
  "normalise_message message =
     (case cleanup message of None \<Rightarrow> BLANK_MESSAGE | Some first_line \<Rightarrow> finish first_line)"

section \<open>Aggregator\<close>

text \<open>
  \<open>ProviderSummary\<close> and \<open>RegionSummary\<close>. A \<open>Counter\<close> is a map from keys to counts in
  which a missing key reads as 0; a \<open>defaultdict\<close> is a map in which a missing key reads
  as a fresh value. \<open>RegionSummary\<close> has the three fields of \<open>ProviderSummary\<close> and two
  more, so it is modelled as its extension. The type \<open>'d\<close> stands for \<open>datetime\<close>.
\<close>

type_synonym counter = "string \<rightharpoonup> nat"

record ProviderSummary =
  status_counts :: counter
  channel_counts :: counter
  messages_by_status :: "string \<rightharpoonup> counter"

record 'd RegionSummary = ProviderSummary +
  times :: "'d list"
  providers :: "string \<rightharpoonup> ProviderSummary"

definition new_ProviderSummary :: ProviderSummary where
  "new_ProviderSummary =
     \<lparr>status_counts = Map.empty, channel_counts = Map.empty, messages_by_status = Map.empty\<rparr>"

definition new_RegionSummary :: "'d RegionSummary" where
  "new_RegionSummary =
     \<lparr>status_counts = Map.empty, channel_counts = Map.empty, messages_by_status = Map.empty,
      times = [], providers = Map.empty\<rparr>"

text \<open>\<open>counter[key]\<close> and \<open>counter[key] += 1\<close>.\<close>

definition count_of :: "counter \<Rightarrow> string \<Rightarrow> nat" where
  "count_of counter key = (case counter key of None \<Rightarrow> 0 | Some n \<Rightarrow> n)"

definition increment :: "counter \<Rightarrow> string \<Rightarrow> counter" where
  "increment counter key = counter(key \<mapsto> count_of counter key + 1)"

text \<open>
  The three increments made on each of the four summaries:
  \<open>status_counts[status] += 1\<close>, \<open>channel_counts[channel] += 1\<close> and
  \<open>messages_by_status[status][norm_message] += 1\<close>.
\<close>

definition messages_of :: "(string \<rightharpoonup> counter) \<Rightarrow> string \<Rightarrow> counter" where
  "messages_of by_status status = (case by_status status of None \<Rightarrow> Map.empty | Some c \<Rightarrow> c)"

definition count_transaction ::
  "string \<Rightarrow> string \<Rightarrow> string \<Rightarrow> 'a ProviderSummary_scheme \<Rightarrow> 'a ProviderSummary_scheme" where
  "count_transaction status channel norm_message summary =
     summary\<lparr>status_counts := increment (status_counts summary) status,
             channel_counts := increment (channel_counts summary) channel,
             messages_by_status :=
               (messages_by_status summary)
                 (status \<mapsto> increment (messages_of (messages_by_status summary) status) norm_message)\<rparr>"

text \<open>\<open>summaries[region]\<close>, \<open>summary.providers[provider]\<close> and updates through them.\<close>

type_synonym 'd summaries = "string \<rightharpoonup> 'd RegionSummary"

definition region_of :: "'d summaries \<Rightarrow> string \<Rightarrow> 'd RegionSummary" where
  "region_of summaries region =
     (case summaries region of None \<Rightarrow> new_RegionSummary | Some summary \<Rightarrow> summary)"

definition provider_of :: "'d RegionSummary \<Rightarrow> string \<Rightarrow> ProviderSummary" where
  "provider_of summary provider =
     (case providers summary provider of None \<Rightarrow> new_ProviderSummary | Some p \<Rightarrow> p)"

definition update_region ::
  "string \<Rightarrow> ('d RegionSummary \<Rightarrow> 'd RegionSummary) \<Rightarrow> 'd summaries \<Rightarrow> 'd summaries" where
  "update_region region f summaries = summaries(region \<mapsto> f (region_of summaries region))"

definition update_provider ::
  "string \<Rightarrow> (ProviderSummary \<Rightarrow> ProviderSummary) \<Rightarrow> 'd RegionSummary \<Rightarrow> 'd RegionSummary" where
  "update_provider provider f summary =
     summary\<lparr>providers := (providers summary)(provider \<mapsto> f (provider_of summary provider))\<rparr>"

definition append_time :: "'d \<Rightarrow> 'd RegionSummary \<Rightarrow> 'd RegionSummary" where
  "append_time dt summary = summary\<lparr>times := times summary @ [dt]\<rparr>"

text \<open>
  Lines 255 to 261. \<open>datetime.fromisoformat\<close> is a library function: it is a parameter,
  returning \<open>None\<close> where the library raises \<open>ValueError\<close>. The result is \<open>None\<close> when
  the record is skipped, else the value of \<open>dt\<close>, itself \<open>None\<close> for a missing date.
\<close>

definition resolve_timestamp :: "(string \<Rightarrow> 'd option) \<Rightarrow> string \<Rightarrow> 'd option option" where
  "resolve_timestamp fromisoformat payment_date =
     (case fromisoformat (replace_char CHR ''Z'' DEFAULT_TZ_SUFFIX payment_date) of
        Some dt \<Rightarrow> Some (Some dt)
      | None \<Rightarrow> if payment_date = DEFAULT_DATE_PLACEHOLDER then Some None else None)"

text \<open>
  A transaction as appended to \<open>transactions\<close>:
  (provider, region, status, channel, normalized message, dt, customer).
\<close>

type_synonym 'd transaction =
  "string \<times> string \<times> string \<times> string \<times> string \<times> 'd option \<times> string"

text \<open>
  Lines 267 to 288: the writes to the summary of the region (\<open>target\<close>), to the
  aggregate and to their provider summaries, in the order of the source. Each write goes
  through the key of the summary, so a region that names the aggregate itself writes to
  the one object.
\<close>

definition record_transaction ::
  "string \<Rightarrow> string \<Rightarrow> string \<Rightarrow> string \<Rightarrow> string \<Rightarrow> 'd option \<Rightarrow> 'd summaries \<Rightarrow> 'd summaries" where
  "record_transaction provider region status channel norm_message dt summaries =
     (let summaries = update_region region id summaries;
          summaries =
            (case dt of
               Some t \<Rightarrow>
                 update_region ''Aggregate'' (append_time t)
                   (update_region region (append_time t) summaries)
             | None \<Rightarrow> summaries);
          summaries =
            update_region region (count_transaction status channel norm_message) summaries;
          summaries =
            update_region ''Aggregate'' (count_transaction status channel norm_message) summaries;
          summaries =
            update_region region
              (update_provider provider (count_transaction status channel norm_message))
              summaries
      in update_region ''Aggregate''
           (update_provider provider (count_transaction status channel norm_message))
           summaries)"

text \<open>
  The body of the loop over the candidates of a row (lines 248 to 288), on the list of
  transactions and the summaries: the validation gate, the timestamp, then the writes.
\<close>

fun ingest ::
  "(string \<Rightarrow> 'd option) \<Rightarrow> candidate \<Rightarrow> 'd transaction list \<times> 'd summaries
     \<Rightarrow> 'd transaction list \<times> 'd summaries" where
  "ingest fromisoformat (provider, region, status, channel, message, payment_date, customer)
          (transactions, summaries) =
     (if region \<notin> REGION_SET \<and> region \<noteq> ''Aggregate'' then (transactions, summaries)
      else if status \<notin> STATUSES then (transactions, summaries)
      else
        let channel = (if channel \<notin> CHANNELS then ''other'' else channel)
        in (case resolve_timestamp fromisoformat payment_date of
              None \<Rightarrow> (transactions, summaries)
            | Some dt \<Rightarrow>
                let norm_message = normalise_message message;
                    key = (provider, region, status, channel, norm_message, dt, customer)
                in (transactions @ [key],
                    record_transaction provider region status channel norm_message dt
                      summaries)))"

text \<open>The counts read from a summary: by status, by channel, by status and message.\<close>

datatype counter_key = Status string | Channel string | Message string string

definition counter_value :: "'a ProviderSummary_scheme \<Rightarrow> counter_key \<Rightarrow> nat" where
  "counter_value summary key =
     (case key of
        Status status \<Rightarrow> count_of (status_counts summary) status
      | Channel channel \<Rightarrow> count_of (channel_counts summary) channel
      | Message status norm_message \<Rightarrow>
          count_of (messages_of (messages_by_status summary) status) norm_message)"

text \<open>
  Every count of the aggregate, and of each of its provider summaries, is the sum of
  that count over the five regions; its timestamps are those of the five regions.
\<close>

definition aggregate_is_sum :: "'d summaries \<Rightarrow> bool" where
  "aggregate_is_sum summaries =
     ((\<forall>key. counter_value (region_of summaries ''Aggregate'') key =
              (\<Sum>region\<leftarrow>REGIONS. counter_value (region_of summaries region) key)) \<and>
      (\<forall>provider key.
          counter_value (provider_of (region_of summaries ''Aggregate'') provider) key =
            (\<Sum>region\<leftarrow>REGIONS.
               counter_value (provider_of (region_of summaries region) provider) key)) \<and>
      mset (times (region_of summaries ''Aggregate'')) =
        (\<Sum>region\<leftarrow>REGIONS. mset (times (region_of summaries region))))"

text \<open>
  \<open>parse_csv\<close> on the rows the CSV reader delivers, the header first: \<open>ValueError\<close> for
  an empty file, else the transactions and the summaries. Empty rows are skipped.
\<close>

datatype error = ValueError

definition default_timestamp :: "string list \<Rightarrow> string" where
  "default_timestamp header =
     (case List.find (\<lambda>col. ISO_PATTERN_match (strip col)) header of
        Some default_dt \<Rightarrow> if default_dt \<noteq> [] then strip default_dt else DEFAULT_DATE_PLACEHOLDER
      | None \<Rightarrow> DEFAULT_DATE_PLACEHOLDER)"

definition ingest_row ::
  "(string \<Rightarrow> 'd option) \<Rightarrow> string list \<Rightarrow> string list \<Rightarrow> string \<Rightarrow> string list
     \<Rightarrow> 'd transaction list \<times> 'd summaries \<Rightarrow> 'd transaction list \<times> 'd summaries" where
  "ingest_row fromisoformat ps rs default_dt row state =
     (if row = [] then state
      else fold (ingest fromisoformat) (extract_transactions ps rs row default_dt) state)"

definition parse_csv ::
  "(string \<Rightarrow> 'd option) \<Rightarrow> string list \<Rightarrow> string list \<Rightarrow> string list list
     \<Rightarrow> error + 'd transaction list \<times> 'd summaries" where
  "parse_csv fromisoformat ps rs reader =
     (case reader of
        [] \<Rightarrow> Inl ValueError
      | header # rows \<Rightarrow>
          Inr (fold (ingest_row fromisoformat ps rs (default_timestamp header)) rows
                 ([], [''Aggregate'' \<mapsto> new_RegionSummary])))"

section \<open>Two concatenated transactions\<close>

text \<open>
  The row of two well-formed transactions, the two messages in double quotes.
\<close>

definition two_transactions_row :: "string list" where
  "two_transactions_row =
     [''cellulant'', ''Nigeria'', ''a@x.com'', ''successful'', ''card'',
      dquote # ''Payment received'' @ [dquote], ''2024-01-01T10:00:00'',
      ''cellulant'', ''Ghana'', ''b@y.com'', ''failed'', ''mobile_money'',
      dquote # ''Insufficient funds'' @ [dquote], ''2024-01-02T11:00:00'']"

lemma of_char_lower_char:
  "(of_char (lower_char c) :: nat) = (if isupper c then of_char c + 32 else of_char c)"
  unfolding lower_char_def isupper_def Let_def by simp

lemma lower_char_comma: "lower_char c = CHR '','' \<longleftrightarrow> c = CHR '',''"
proof -
  have "lower_char c = CHR '','' \<longleftrightarrow> (of_char (lower_char c) :: nat) = of_char CHR '',''"
    by (simp only: of_char_eq_iff)
  also have "\<dots> \<longleftrightarrow> (of_char c :: nat) = of_char CHR '',''"
    unfolding of_char_lower_char by (simp add: isupper_def Let_def)
  also have "\<dots> \<longleftrightarrow> c = CHR '',''"
    by (simp only: of_char_eq_iff)
  finally show ?thesis .
qed

lemma str_find_absent: "c \<notin> set s \<Longrightarrow> str_find s (c # sub) = None"
  by (induction s) (auto simp: startswith_def)

lemma truncate_at_first_no_comma:
  assumes "CHR '','' \<notin> set message"
  shows "truncate_at_first tokens message = message"
proof -
  from assms have "CHR '','' \<notin> set (lower message)"
    unfolding lower_def
    by (induction message) (simp_all add: lower_char_comma eq_commute [of "CHR '',''"])
  then show ?thesis
    by (induction tokens) (simp_all add: str_find_absent)
qed

lemma postprocess_message_quoted:
  assumes "CHR '','' \<notin> set body"
    and "strip (dquote # body @ [dquote]) = dquote # body @ [dquote]"
  shows "postprocess_message ps rs [dquote # body @ [dquote]] = body"
  using assms
  by (simp add: postprocess_message_def truncate_message_def Let_def truncate_at_first_no_comma
      dquote_def startswith_def endswith_def butlast_append)

text \<open>What \<open>extract_at\<close> returns when a status and a channel are found.\<close>

lemma extract_at_emits:
  assumes "customer_loop row (provider_idx + 2) [] = (i1, customer_parts)" and "i1 < length row"
    and "channel_loop row (i1 + 1) = i2" and "i2 < length row"
    and "message_loop row
           (if i2 + 1 < length row \<and> lower (strip (row ! (i2 + 1))) \<in> {''live'', ''test''}
            then i2 + 1 + 1 else i2 + 1) [] = (i4, message_parts, d)"
  shows "extract_at ps rs row default_dt provider_idx =
           Some ((lower (strip (row ! provider_idx)), strip (row ! (provider_idx + 1)),
                  lower (strip (row ! i1)), lower (strip (row ! i2)),
                  postprocess_message ps rs message_parts,
                  (if d \<noteq> [] then d else default_dt), pick_customer customer_parts), i4)"
  using assms
  by (cases "i2 + 1 < length row \<and> lower (strip (row ! (i2 + 1))) \<in> {''live'', ''test''}")
     (auto simp: extract_at_def Let_def)

lemma two_transactions_first_loops:
  "customer_loop two_transactions_row (0 + 2) [] = (3, [''a@x.com''])"
  "channel_loop two_transactions_row (3 + 1) = 4"
  "message_loop two_transactions_row
     (if 4 + 1 < length two_transactions_row \<and>
         lower (strip (two_transactions_row ! (4 + 1))) \<in> {''live'', ''test''}
      then 4 + 1 + 1 else 4 + 1) [] =
   (7, [dquote # ''Payment received'' @ [dquote]], ''2024-01-01T10:00:00'')"
  unfolding two_transactions_row_def by code_simp+

lemma two_transactions_second_loops:
  "customer_loop two_transactions_row (7 + 2) [] = (10, [''b@y.com''])"
  "channel_loop two_transactions_row (10 + 1) = 11"
  "message_loop two_transactions_row
     (if 11 + 1 < length two_transactions_row \<and>
         lower (strip (two_transactions_row ! (11 + 1))) \<in> {''live'', ''test''}
      then 11 + 1 + 1 else 11 + 1) [] =
   (14, [dquote # ''Insufficient funds'' @ [dquote]], ''2024-01-02T11:00:00'')"
  unfolding two_transactions_row_def by code_simp+

lemma two_transactions_boundaries:
  "find_next_provider_index two_transactions_row 0 = Some 0"
  "find_next_provider_index two_transactions_row 7 = Some 7"
  "length two_transactions_row = 14"
  unfolding two_transactions_row_def by code_simp+

lemma two_transactions_messages:
  "postprocess_message ps rs [dquote # ''Payment received'' @ [dquote]] = ''Payment received''"
  "postprocess_message ps rs [dquote # ''Insufficient funds'' @ [dquote]] = ''Insufficient funds''"
proof -
  have "strip (dquote # ''Payment received'' @ [dquote]) = dquote # ''Payment received'' @ [dquote]"
    by code_simp
  then show "postprocess_message ps rs [dquote # ''Payment received'' @ [dquote]]
             = ''Payment received''"
    by (rule postprocess_message_quoted [rotated]) simp
  have "strip (dquote # ''Insufficient funds'' @ [dquote])
        = dquote # ''Insufficient funds'' @ [dquote]"
    by code_simp
  then show "postprocess_message ps rs [dquote # ''Insufficient funds'' @ [dquote]]
             = ''Insufficient funds''"
    by (rule postprocess_message_quoted [rotated]) simp
qed

lemma two_transactions_fields:
  "lower (strip ''cellulant'') = ''cellulant''" "strip ''Nigeria'' = ''Nigeria''"
  "strip ''Ghana'' = ''Ghana''" "lower (strip ''successful'') = ''successful''"
  "lower (strip ''failed'') = ''failed''" "lower (strip ''card'') = ''card''"
  "lower (strip ''mobile_money'') = ''mobile_money''"
  "pick_customer [''a@x.com''] = ''a@x.com''" "pick_customer [''b@y.com''] = ''b@y.com''"
  by code_simp+

lemma two_transactions_extract_at:
  "extract_at ps rs two_transactions_row default_dt 0 =
     Some ((''cellulant'', ''Nigeria'', ''successful'', ''card'', ''Payment received'',
            ''2024-01-01T10:00:00'', ''a@x.com''), 7)"
  "extract_at ps rs two_transactions_row default_dt 7 =
     Some ((''cellulant'', ''Ghana'', ''failed'', ''mobile_money'', ''Insufficient funds'',
            ''2024-01-02T11:00:00'', ''b@y.com''), 14)"
  using extract_at_emits [OF two_transactions_first_loops(1) _ two_transactions_first_loops(2) _
      two_transactions_first_loops(3), of ps rs default_dt]
    extract_at_emits [OF two_transactions_second_loops(1) _ two_transactions_second_loops(2) _
      two_transactions_second_loops(3), of ps rs default_dt]
  by (simp_all add: two_transactions_boundaries(3) two_transactions_messages [simplified]
      two_transactions_row_def two_transactions_fields)

lemma two_transactions_scan:
  "scan ps rs two_transactions_row default_dt 0 =
     [(0, Some ((''cellulant'', ''Nigeria'', ''successful'', ''card'', ''Payment received'',
                 ''2024-01-01T10:00:00'', ''a@x.com''), 7)),
      (7, Some ((''cellulant'', ''Ghana'', ''failed'', ''mobile_money'', ''Insufficient funds'',
                 ''2024-01-02T11:00:00'', ''b@y.com''), 14))]"
  apply (subst scan.simps, simp add: two_transactions_boundaries two_transactions_extract_at)
  apply (subst scan.simps, simp add: two_transactions_boundaries two_transactions_extract_at)
  apply (subst scan.simps, simp add: two_transactions_boundaries)
  done

text \<open>
  Claim C2. Whatever the default timestamp and the iteration orders of the vocabularies,
  the row of two concatenated transactions yields exactly two candidates: the first is
  (cellulant, Nigeria, successful, card, Payment received, 2024-01-01T10:00:00, a@x.com)
  and the second (cellulant, Ghana, failed, mobile_money, Insufficient funds,
  2024-01-02T11:00:00, b@y.com), the messages without their quotes; every field of a
  candidate is a cell of its own transaction.
\<close>

theorem two_transactions_extracted:
  "extract_transactions ps rs two_transactions_row default_dt =
     [(''cellulant'', ''Nigeria'', ''successful'', ''card'', ''Payment received'',
       ''2024-01-01T10:00:00'', ''a@x.com''),
      (''cellulant'', ''Ghana'', ''failed'', ''mobile_money'', ''Insufficient funds'',
       ''2024-01-02T11:00:00'', ''b@y.com'')]"
  by (simp add: extract_transactions_def two_transactions_scan)

section \<open>Forward progress of the scan\<close>

lemma message_loop_bounded:
  "message_loop row idx message_parts = (j, parts, d) \<Longrightarrow> idx \<le> length row \<Longrightarrow> j \<le> length row"
proof (induction row idx message_parts rule: message_loop.induct)
  case (1 row idx message_parts)
  show ?case
  proof (cases "idx < length row")
    case True
    show ?thesis
    proof (cases "message_step row idx")
      case (Date x)
      with True "1.prems" show ?thesis
        by (subst (asm) message_loop.simps) auto
    next
      case Break
      with True "1.prems" show ?thesis
        by (subst (asm) message_loop.simps) auto
    next
      case Append
      with True "1.prems" have "message_loop row (Suc idx) (message_parts @ [row ! idx]) = (j, parts, d)"
        by (subst (asm) message_loop.simps) simp
      with "1.IH" True Append show ?thesis by simp
    qed
  next
    case False
    with "1.prems" show ?thesis
      by (subst (asm) message_loop.simps) auto
  qed
qed

lemma extract_at_bounded:
  assumes "extract_at ps rs row default_dt provider_idx = Some (c, idx)"
  shows "idx \<le> length row"
proof -
  obtain i1 parts where cl: "customer_loop row (provider_idx + 2) [] = (i1, parts)"
    by (cases "customer_loop row (provider_idx + 2) []")
  define i2 where "i2 = channel_loop row (i1 + 1)"
  define i3 where "i3 = (if i2 + 1 < length row \<and> lower (strip (row ! (i2 + 1))) \<in> {''live'', ''test''}
                         then i2 + 1 + 1 else i2 + 1)"
  obtain i4 mparts d where ml: "message_loop row i3 [] = (i4, mparts, d)"
    by (cases "message_loop row i3 []")
  from assms cl ml have "idx = i4" and "i2 < length row"
    unfolding extract_at_def i3_def i2_def
    by (simp_all add: Let_def split: if_splits)
  then have "i3 \<le> length row" unfolding i3_def by simp
  with ml \<open>idx = i4\<close> show ?thesis by (simp add: message_loop_bounded)
qed

lemma scan_unfold:
  assumes "scan ps rs row default_dt i = a # rest"
  shows "\<exists>p. find_next_provider_index row i = Some p \<and>
           (case extract_at ps rs row default_dt p of
              None \<Rightarrow> a = (p, None) \<and> rest = scan ps rs row default_dt (p + 1)
            | Some (c, idx) \<Rightarrow> a = (p, Some (c, idx)) \<and> rest = scan ps rs row default_dt idx)"
proof -
  from assms have i: "i < length row"
    by (subst (asm) scan.simps) (simp split: if_splits)
  from assms i obtain p where p: "find_next_provider_index row i = Some p"
    by (subst (asm) scan.simps) (simp split: option.splits)
  from assms i p have
    "(case extract_at ps rs row default_dt p of
        None \<Rightarrow> (p, None) # scan ps rs row default_dt (p + 1)
      | Some (c, idx) \<Rightarrow> (p, Some (c, idx)) # scan ps rs row default_dt idx) = a # rest"
    by (subst (asm) scan.simps) simp
  with p show ?thesis
    by (auto split: option.splits)
qed

lemma scan_step:
  assumes "scan ps rs row default_dt i = a # rest"
  shows "i \<le> boundary_of a \<and> boundary_of a + 1 < length row \<and> boundary_of a < resume_of a \<and>
         resume_of a \<le> length row \<and> rest = scan ps rs row default_dt (resume_of a)"
proof -
  from scan_unfold [OF assms] obtain p where p: "find_next_provider_index row i = Some p"
    and e: "(case extract_at ps rs row default_dt p of
              None \<Rightarrow> a = (p, None) \<and> rest = scan ps rs row default_dt (p + 1)
            | Some (c, idx) \<Rightarrow> a = (p, Some (c, idx)) \<and> rest = scan ps rs row default_dt idx)"
    by blast
  note b = find_next_provider_index_Some [OF p]
  show ?thesis
  proof (cases "extract_at ps rs row default_dt p")
    case None
    with e b show ?thesis
      by (simp add: boundary_of_def resume_of_def)
  next
    case (Some x)
    obtain c idx where x: "x = (c, idx)" by (cases x)
    with Some e have "a = (p, Some (c, idx))" and "rest = scan ps rs row default_dt idx"
      by simp_all
    with b extract_at_forward [OF Some [unfolded x]] extract_at_bounded [OF Some [unfolded x]]
    show ?thesis
      by (simp add: boundary_of_def resume_of_def)
  qed
qed

lemma scan_length: "length (scan ps rs row default_dt i) \<le> length row - i"
proof (induction "length row - i" arbitrary: i rule: less_induct)
  case less
  show ?case
  proof (cases "scan ps rs row default_dt i")
    case Nil
    then show ?thesis by simp
  next
    case (Cons a rest)
    note s = scan_step [OF Cons]
    from s have "length row - resume_of a < length row - i" by linarith
    then have "length (scan ps rs row default_dt (resume_of a)) \<le> length row - resume_of a"
      by (rule less)
    moreover from s have "rest = scan ps rs row default_dt (resume_of a)"
      and "i < resume_of a" and "resume_of a \<le> length row" by simp_all
    ultimately show ?thesis using Cons by simp
  qed
qed

lemma scan_boundaries: 
  "sorted_wrt (<) (map boundary_of (scan ps rs row default_dt i)) \<and>
   (\<forall>a \<in> set (scan ps rs row default_dt i). i \<le> boundary_of a)"
proof (induction "length row - i" arbitrary: i rule: less_induct)
  case less
  show ?case
  proof (cases "scan ps rs row default_dt i")
    case Nil
    then show ?thesis by simp
  next
    case (Cons a rest)
    note s = scan_step [OF Cons]
    from s have "length row - resume_of a < length row - i" by linarith
    from less [OF this] s have "sorted_wrt (<) (map boundary_of rest)"
      and "\<forall>b \<in> set rest. resume_of a \<le> boundary_of b" by simp_all
    with s Cons show ?thesis by fastforce
  qed
qed

lemma scan_resumes:
  "k < length (scan ps rs row default_dt i) \<Longrightarrow>
   drop (Suc k) (scan ps rs row default_dt i) =
     scan ps rs row default_dt (resume_of (scan ps rs row default_dt i ! k))"
proof (induction k arbitrary: i)
  case 0
  then obtain a rest where c: "scan ps rs row default_dt i = a # rest"
    by (cases "scan ps rs row default_dt i") auto
  from scan_step [OF c] c show ?case by simp
next
  case (Suc k)
  then obtain a rest where c: "scan ps rs row default_dt i = a # rest"
    by (cases "scan ps rs row default_dt i") auto
  from scan_step [OF c] have r: "rest = scan ps rs row default_dt (resume_of a)" by simp
  from Suc.prems c r have "k < length (scan ps rs row default_dt (resume_of a))" by simp
  from Suc.IH [OF this] c r show ?case by simp
qed

lemma scan_nth_progress:
  assumes "k < length (scan ps rs row default_dt i)"
  shows "boundary_of (scan ps rs row default_dt i ! k) < resume_of (scan ps rs row default_dt i ! k) \<and>
         resume_of (scan ps rs row default_dt i ! k) \<le> length row"
  using assms
proof (induction k arbitrary: i)
  case 0
  then obtain a rest where c: "scan ps rs row default_dt i = a # rest"
    by (cases "scan ps rs row default_dt i") auto
  from scan_step [OF c] c show ?case by simp
next
  case (Suc k)
  then obtain a rest where c: "scan ps rs row default_dt i = a # rest"
    by (cases "scan ps rs row default_dt i") auto
  from scan_step [OF c] have r: "rest = scan ps rs row default_dt (resume_of a)" by simp
  from Suc.prems c r have "k < length (scan ps rs row default_dt (resume_of a))" by simp
  from Suc.IH [OF this] c r show ?case by simp
qed

text \<open>
  Claim C3. The main loop is a total function: its recursion is accepted with the measure
  \<open>len(row) - i\<close>. For every row, default timestamp and iteration orders, the boundaries
  tried from position 0 are strictly increasing and at most \<open>len(row)\<close> many; after every
  attempt the scan goes on at an index above the boundary and within the row, which is
  \<open>boundary + 1\<close> after an incomplete candidate, and what follows the attempt is the scan
  from that index.
\<close>

theorem extract_transactions_forward_progress:
  "length (scan ps rs row default_dt 0) \<le> length row \<and>
   sorted_wrt (<) (map boundary_of (scan ps rs row default_dt 0)) \<and>
   (\<forall>k < length (scan ps rs row default_dt 0).
      boundary_of (scan ps rs row default_dt 0 ! k) < resume_of (scan ps rs row default_dt 0 ! k) \<and>
      resume_of (scan ps rs row default_dt 0 ! k) \<le> length row \<and>
      (snd (scan ps rs row default_dt 0 ! k) = None \<longrightarrow>
         resume_of (scan ps rs row default_dt 0 ! k) = boundary_of (scan ps rs row default_dt 0 ! k) + 1) \<and>
      drop (Suc k) (scan ps rs row default_dt 0) =
        scan ps rs row default_dt (resume_of (scan ps rs row default_dt 0 ! k)))"
  using scan_length [of ps rs row default_dt 0] scan_boundaries [of ps rs row default_dt 0]
    scan_resumes [of _ ps rs row default_dt 0] scan_nth_progress [of _ ps rs row default_dt 0]
  by (simp add: resume_of_def boundary_of_def)


definition incomplete_row :: "string list" where
  "incomplete_row = [''paystack'', ''Ghana'', ''x'']"

lemma incomplete_row_scan: "scan [] [] incomplete_row [] 0 = [(0, None)]"
proof -
  have "find_next_provider_index incomplete_row 0 = Some 0"
    and "find_next_provider_index incomplete_row (0 + 1) = None"
    and "extract_at [] [] incomplete_row [] 0 = None"
    and "length incomplete_row = 3"
    unfolding incomplete_row_def by code_simp+
  then show ?thesis
    apply (subst scan.simps, simp)
    apply (subst scan.simps, simp)
    done
qed

theorem extract_transactions_forward_progress_witness:
  "(1::nat) < length (scan [] [] two_transactions_row [] 0) \<and>
   boundary_of (scan [] [] two_transactions_row [] 0 ! 1)
     < resume_of (scan [] [] two_transactions_row [] 0 ! 1) \<and>
   resume_of (scan [] [] two_transactions_row [] 0 ! 1) = 14 \<and>
   (0::nat) < length (scan [] [] incomplete_row [] 0) \<and>
   snd (scan [] [] incomplete_row [] 0 ! 0) = None \<and>
   resume_of (scan [] [] incomplete_row [] 0 ! 0) = boundary_of (scan [] [] incomplete_row [] 0 ! 0) + 1 \<and>
   drop (Suc 0) (scan [] [] incomplete_row [] 0) = scan [] [] incomplete_row [] 1"
proof -
  have a: "(1::nat) < length (scan [] [] two_transactions_row [] 0)"
    and b: "resume_of (scan [] [] two_transactions_row [] 0 ! 1) = 14"
    by (simp_all add: two_transactions_scan resume_of_def)
  have c: "(0::nat) < length (scan [] [] incomplete_row [] 0)"
    and d: "snd (scan [] [] incomplete_row [] 0 ! 0) = None"
    and e: "resume_of (scan [] [] incomplete_row [] 0 ! 0) = 1"
    by (simp_all add: incomplete_row_scan resume_of_def)
  from a extract_transactions_forward_progress [of "[]" "[]" two_transactions_row "[]"]
  have "boundary_of (scan [] [] two_transactions_row [] 0 ! 1)
     < resume_of (scan [] [] two_transactions_row [] 0 ! 1)"
    by blast
  moreover from c d extract_transactions_forward_progress [of "[]" "[]" incomplete_row "[]"]
  have "resume_of (scan [] [] incomplete_row [] 0 ! 0)
          = boundary_of (scan [] [] incomplete_row [] 0 ! 0) + 1"
    and "drop (Suc 0) (scan [] [] incomplete_row [] 0)
          = scan [] [] incomplete_row [] (resume_of (scan [] [] incomplete_row [] 0 ! 0))"
    by blast+
  ultimately show ?thesis using a b c d e by simp
qed

section \<open>What the extractor yields\<close>

lemma customer_loop_stops:
  "customer_loop row idx customer_parts = (j, parts) \<Longrightarrow>
   j < length row \<Longrightarrow> lower (strip (row ! j)) \<in> STATUSES"
proof (induction row idx customer_parts rule: customer_loop.induct)
  case (1 row idx customer_parts)
  show ?case
  proof (cases "idx < length row \<and> lower (strip (row ! idx)) \<notin> STATUSES")
    case True
    with "1.prems" have "customer_loop row (Suc idx)
        (if strip (row ! idx) \<noteq> [] then customer_parts @ [strip (row ! idx)] else customer_parts)
        = (j, parts)"
      by (subst (asm) customer_loop.simps) simp
    with "1.IH" True "1.prems"(2) show ?thesis by blast
  next
    case False
    with "1.prems" show ?thesis
      by (subst (asm) customer_loop.simps) auto
  qed
qed

lemma channel_loop_stops:
  "channel_loop row idx < length row \<Longrightarrow> lower (strip (row ! channel_loop row idx)) \<in> CHANNELS"
proof (induction row idx rule: channel_loop.induct)
  case (1 row idx)
  show ?case
  proof (cases "idx < length row \<and> lower (strip (row ! idx)) \<notin> CHANNELS")
    case True
    then have "channel_loop row idx = channel_loop row (Suc idx)"
      by (subst channel_loop.simps) simp
    with "1.IH" True "1.prems" show ?thesis by simp
  next
    case False
    have "channel_loop row idx = idx"
      using False by (subst channel_loop.simps) auto
    with False "1.prems" show ?thesis by auto
  qed
qed

lemma message_loop_date:
  "message_loop row idx message_parts = (j, parts, d) \<Longrightarrow>
   d = [] \<or> (ISO_PATTERN_match d \<and> (\<exists>k < length row. d = strip (row ! k)))"
proof (induction row idx message_parts rule: message_loop.induct)
  case (1 row idx message_parts)
  show ?case
  proof (cases "idx < length row")
    case True
    show ?thesis
    proof (cases "message_step row idx")
      case (Date x)
      then have "ISO_PATTERN_match x \<and> x = strip (row ! idx)"
        by (auto simp: message_step_def Let_def split: if_splits)
      moreover from Date True "1.prems" have "d = x"
        by (subst (asm) message_loop.simps) auto
      ultimately show ?thesis using True by blast
    next
      case Break
      with True "1.prems" show ?thesis
        by (subst (asm) message_loop.simps) auto
    next
      case Append
      with True "1.prems" have "message_loop row (Suc idx) (message_parts @ [row ! idx]) = (j, parts, d)"
        by (subst (asm) message_loop.simps) simp
      with "1.IH" True Append show ?thesis by blast
    qed
  next
    case False
    with "1.prems" show ?thesis
      by (subst (asm) message_loop.simps) auto
  qed
qed

text \<open>The fields of a candidate that \<open>extract_at\<close> yields at a boundary.\<close>

lemma extract_at_fields:
  assumes "extract_at ps rs row default_dt p = Some (c, idx)"
  shows "cand_provider c = lower (strip (row ! p))" and "cand_region c = strip (row ! (p + 1))"
    and "cand_status c \<in> STATUSES" and "cand_channel c \<in> CHANNELS"
    and "cand_payment_date c = default_dt \<or>
         (ISO_PATTERN_match (cand_payment_date c) \<and>
          (\<exists>k < length row. cand_payment_date c = strip (row ! k)))"
proof -
  obtain i1 parts where cl: "customer_loop row (p + 2) [] = (i1, parts)"
    by (cases "customer_loop row (p + 2) []")
  define i2 where "i2 = channel_loop row (i1 + 1)"
  define i3 where "i3 = (if i2 + 1 < length row \<and> lower (strip (row ! (i2 + 1))) \<in> {''live'', ''test''}
                         then i2 + 1 + 1 else i2 + 1)"
  obtain i4 mparts d where ml: "message_loop row i3 [] = (i4, mparts, d)"
    by (cases "message_loop row i3 []")
  from assms cl ml have i1: "i1 < length row" and i2: "i2 < length row"
    and c: "c = (lower (strip (row ! p)), strip (row ! (p + 1)), lower (strip (row ! i1)),
                 lower (strip (row ! i2)), postprocess_message ps rs mparts,
                 (if d \<noteq> [] then d else default_dt), pick_customer parts)"
    unfolding extract_at_def i3_def i2_def
    by (simp_all add: Let_def split: if_splits)
  from c show "cand_provider c = lower (strip (row ! p))" and "cand_region c = strip (row ! (p + 1))"
    by (simp_all add: cand_provider_def cand_region_def)
  from c customer_loop_stops [OF cl i1] show "cand_status c \<in> STATUSES"
    by (simp add: cand_status_def)
  from c channel_loop_stops [of row "i1 + 1"] i2 show "cand_channel c \<in> CHANNELS"
    by (simp add: cand_channel_def i2_def)
  from c message_loop_date [OF ml]
  show "cand_payment_date c = default_dt \<or>
         (ISO_PATTERN_match (cand_payment_date c) \<and>
          (\<exists>k < length row. cand_payment_date c = strip (row ! k)))"
    by (auto simp: cand_payment_date_def)
qed

lemma scan_attempts:
  "(p, Some (c, idx)) \<in> set (scan ps rs row default_dt i) \<Longrightarrow>
   is_boundary row p \<and> extract_at ps rs row default_dt p = Some (c, idx)"
proof (induction "length row - i" arbitrary: i rule: less_induct)
  case less
  from less.prems obtain a rest where s: "scan ps rs row default_dt i = a # rest"
    by (cases "scan ps rs row default_dt i") auto
  from scan_unfold [OF s] obtain q where q: "find_next_provider_index row i = Some q"
    and e: "(case extract_at ps rs row default_dt q of
              None \<Rightarrow> a = (q, None) \<and> rest = scan ps rs row default_dt (q + 1)
            | Some (c, idx) \<Rightarrow> a = (q, Some (c, idx)) \<and> rest = scan ps rs row default_dt idx)"
    by blast
  note st = scan_step [OF s]
  show ?case
  proof (cases "(p, Some (c, idx)) = a")
    case True
    with e find_next_provider_index_Some(3) [OF q] show ?thesis
      by (auto split: option.splits)
  next
    case False
    with less.prems s st have "(p, Some (c, idx)) \<in> set (scan ps rs row default_dt (resume_of a))"
      by simp
    moreover from st have "length row - resume_of a < length row - i" by linarith
    ultimately show ?thesis by (rule less.hyps [rotated])
  qed
qed

lemma extract_transactions_candidates:
  assumes "c \<in> set (extract_transactions ps rs row default_dt)"
  shows "\<exists>p idx. is_boundary row p \<and> extract_at ps rs row default_dt p = Some (c, idx)"
proof -
  from assms obtain a where a: "a \<in> set (scan ps rs row default_dt 0)"
    and m: "map_option fst (snd a) = Some c"
    unfolding extract_transactions_def by (auto simp: List.map_filter_def)
  from m obtain p idx where "a = (p, Some (c, idx))"
    by (cases a) auto
  with a scan_attempts show ?thesis by blast
qed

lemma extract_transactions_vocabulary:
  assumes "c \<in> set (extract_transactions ps rs row default_dt)"
  shows "cand_provider c \<in> PROVIDERS" and "cand_region c \<in> REGION_SET"
    and "cand_status c \<in> STATUSES" and "cand_channel c \<in> CHANNELS"
proof -
  from extract_transactions_candidates [OF assms] obtain p idx
    where b: "is_boundary row p" and e: "extract_at ps rs row default_dt p = Some (c, idx)"
    by blast
  from b extract_at_fields(1,2) [OF e]
  show "cand_provider c \<in> PROVIDERS" and "cand_region c \<in> REGION_SET"
    by (simp_all add: is_boundary_def Let_def)
  from extract_at_fields(3,4) [OF e]
  show "cand_status c \<in> STATUSES" and "cand_channel c \<in> CHANNELS" .
qed

section \<open>The aggregate mirrors the regions\<close>

lemma region_of_update_region:
  "region_of (update_region x f summaries) y =
     (if y = x then f (region_of summaries x) else region_of summaries y)"
  by (simp add: region_of_def update_region_def)

lemma provider_of_simps:
  "provider_of (update_provider q f summary) p =
     (if p = q then f (provider_of summary q) else provider_of summary p)"
  "provider_of (append_time t summary) p = provider_of summary p"
  "provider_of (count_transaction status channel norm_message summary) p = provider_of summary p"
  by (simp_all add: provider_of_def update_provider_def append_time_def count_transaction_def)

lemma times_simps:
  "times (update_provider q f summary) = times summary"
  "times (append_time t summary) = times summary @ [t]"
  "times (count_transaction status channel norm_message summary) = times summary"
  by (simp_all add: update_provider_def append_time_def count_transaction_def)

text \<open>What the three increments of one transaction add to a count.\<close>

definition hits :: "string \<Rightarrow> string \<Rightarrow> string \<Rightarrow> counter_key \<Rightarrow> nat" where
  "hits status channel norm_message key =
     (case key of
        Status s \<Rightarrow> if s = status then 1 else 0
      | Channel c \<Rightarrow> if c = channel then 1 else 0
      | Message s m \<Rightarrow> if s = status \<and> m = norm_message then 1 else 0)"

lemma count_of_increment:
  "count_of (increment counter k) k' = count_of counter k' + (if k' = k then 1 else 0)"
  by (simp add: count_of_def increment_def)

lemma counter_value_count_transaction:
  fixes summary :: "'a ProviderSummary_scheme"
  shows "counter_value (count_transaction status channel norm_message summary) key =
     counter_value summary key + hits status channel norm_message key"
  by (cases key)
     (simp_all add: counter_value_def count_transaction_def hits_def count_of_increment
       messages_of_def)

lemma counter_value_simps:
  "counter_value (update_provider q f summary) key = counter_value summary key"
  "counter_value (append_time t summary) key = counter_value summary key"
  by (cases key; simp add: counter_value_def update_provider_def append_time_def)+

lemma region_of_record_transaction:
  assumes "region \<noteq> ''Aggregate''"
  shows "region_of (record_transaction provider region status channel norm_message dt summaries) r =
     (if r = region \<or> r = ''Aggregate'' then
        update_provider provider (count_transaction status channel norm_message)
          (count_transaction status channel norm_message
            ((case dt of Some t \<Rightarrow> append_time t | None \<Rightarrow> id) (region_of summaries r)))
      else region_of summaries r)"
  using assms
  by (cases dt) (auto simp: record_transaction_def Let_def region_of_update_region)

lemma sum_list_bump:
  fixes g :: "'a \<Rightarrow> 'b::comm_monoid_add"
  assumes "distinct xs" and "x \<in> set xs"
  shows "(\<Sum>r\<leftarrow>xs. if r = x then g r + d else g r) = (\<Sum>r\<leftarrow>xs. g r) + d"
  using assms
proof (induction xs)
  case Nil
  then show ?case by simp
next
  case (Cons y ys)
  show ?case
  proof (cases "y = x")
    case True
    with Cons.prems have "x \<notin> set ys" by simp
    then have "(\<Sum>r\<leftarrow>ys. if r = x then g r + d else g r) = (\<Sum>r\<leftarrow>ys. g r)"
      by (intro arg_cong [where f = sum_list] map_cong) auto
    with True show ?thesis by (simp add: ac_simps)
  next
    case False
    with Cons show ?thesis by (simp add: ac_simps)
  qed
qed

lemma REGIONS_facts:
  "distinct REGIONS" "''Aggregate'' \<notin> set REGIONS" "set REGIONS = REGION_SET"
  by (simp_all add: REGIONS_def REGION_SET_def)

lemma record_transaction_preserves:
  assumes inv: "aggregate_is_sum summaries" and region: "region \<in> REGION_SET"
  shows "aggregate_is_sum (record_transaction provider region status channel norm_message dt summaries)"
proof -
  from region have ne: "region \<noteq> ''Aggregate''" and mem: "region \<in> set REGIONS"
    using REGIONS_facts by auto
  note r = region_of_record_transaction [OF ne]
  have agg: "\<And>P Q. (if ''Aggregate'' = region \<or> ''Aggregate'' = ''Aggregate'' then P else Q) = P"
    by simp
  have reg: "\<And>(r::string) (P::'x) Q. r \<in> set REGIONS \<Longrightarrow>
      (if r = region \<or> r = ''Aggregate'' then P else Q) = (if r = region then P else Q)"
    using REGIONS_facts(2) by auto
  have 1: "counter_value (region_of (record_transaction provider region status channel norm_message dt summaries) ''Aggregate'') key =
        (\<Sum>r\<leftarrow>REGIONS. counter_value (region_of (record_transaction provider region status channel norm_message dt summaries) r) key)" for key
  proof -
    have "(\<Sum>r\<leftarrow>REGIONS. counter_value (region_of (record_transaction provider region status channel norm_message dt summaries) r) key)
        = (\<Sum>r\<leftarrow>REGIONS. if r = region then counter_value (region_of summaries r) key + hits status channel norm_message key
                          else counter_value (region_of summaries r) key)"
      by (intro arg_cong [where f = sum_list] map_cong refl)
         (cases dt; auto simp: r counter_value_simps counter_value_count_transaction REGIONS_facts(2))
    also have "\<dots> = (\<Sum>r\<leftarrow>REGIONS. counter_value (region_of summaries r) key) + hits status channel norm_message key"
      by (rule sum_list_bump [OF REGIONS_facts(1) mem])
    finally show ?thesis
      using inv by (cases dt) (simp_all add: r counter_value_simps counter_value_count_transaction aggregate_is_sum_def)
  qed
  have 2: "counter_value (provider_of (region_of (record_transaction provider region status channel norm_message dt summaries) ''Aggregate'') p) key =
        (\<Sum>r\<leftarrow>REGIONS. counter_value (provider_of (region_of (record_transaction provider region status channel norm_message dt summaries) r) p) key)" for p key
  proof -
    define d where "d = (if p = provider then hits status channel norm_message key else 0)"
    have "(\<Sum>r\<leftarrow>REGIONS. counter_value (provider_of (region_of (record_transaction provider region status channel norm_message dt summaries) r) p) key)
        = (\<Sum>r\<leftarrow>REGIONS. if r = region then counter_value (provider_of (region_of summaries r) p) key + d
                          else counter_value (provider_of (region_of summaries r) p) key)"
      by (intro arg_cong [where f = sum_list] map_cong refl)
         (cases dt; auto simp: r counter_value_simps counter_value_count_transaction provider_of_simps REGIONS_facts(2) d_def)
    also have "\<dots> = (\<Sum>r\<leftarrow>REGIONS. counter_value (provider_of (region_of summaries r) p) key) + d"
      by (rule sum_list_bump [OF REGIONS_facts(1) mem])
    finally show ?thesis
      using inv by (cases dt) (simp_all add: r counter_value_simps counter_value_count_transaction provider_of_simps aggregate_is_sum_def d_def)
  qed
  have 3: "mset (times (region_of (record_transaction provider region status channel norm_message dt summaries) ''Aggregate'')) =
        (\<Sum>r\<leftarrow>REGIONS. mset (times (region_of (record_transaction provider region status channel norm_message dt summaries) r)))"
  proof -
    define d where "d = (case dt of Some t \<Rightarrow> {#t#} | None \<Rightarrow> {#})"
    have "(\<Sum>r\<leftarrow>REGIONS. mset (times (region_of (record_transaction provider region status channel norm_message dt summaries) r)))
        = (\<Sum>r\<leftarrow>REGIONS. if r = region then mset (times (region_of summaries r)) + d
                          else mset (times (region_of summaries r)))"
      by (intro arg_cong [where f = sum_list] map_cong refl)
         (cases dt; auto simp: r times_simps REGIONS_facts(2) d_def)
    also have "\<dots> = (\<Sum>r\<leftarrow>REGIONS. mset (times (region_of summaries r))) + d"
      by (rule sum_list_bump [OF REGIONS_facts(1) mem])
    finally show ?thesis
      using inv by (cases dt) (simp_all add: r times_simps aggregate_is_sum_def d_def)
  qed
  from 1 2 3 show ?thesis unfolding aggregate_is_sum_def by blast
qed


lemma ingest_preserves:
  assumes "aggregate_is_sum (snd state)" and "cand_region c \<noteq> ''Aggregate''"
  shows "aggregate_is_sum (snd (ingest fromisoformat c state))"
proof -
  obtain provider region status channel message payment_date customer
    where c: "c = (provider, region, status, channel, message, payment_date, customer)"
    by (cases c)
  obtain transactions summaries where s: "state = (transactions, summaries)"
    by (cases state)
  from assms c s have inv: "aggregate_is_sum summaries" and ne: "region \<noteq> ''Aggregate''"
    by (simp_all add: cand_region_def)
  show ?thesis
  proof (cases "region \<in> REGION_SET")
    case True
    with inv show ?thesis
      unfolding c s
      by (simp add: Let_def record_transaction_preserves split: option.splits)
  next
    case False
    with ne inv show ?thesis
      unfolding c s by simp
  qed
qed

lemma fold_ingest_preserves:
  assumes "\<And>c. c \<in> set cs \<Longrightarrow> cand_region c \<noteq> ''Aggregate''" and "aggregate_is_sum (snd state)"
  shows "aggregate_is_sum (snd (fold (ingest fromisoformat) cs state))"
  using assms
  by (induction cs arbitrary: state) (simp_all add: ingest_preserves)

lemma ingest_row_preserves:
  assumes "aggregate_is_sum (snd state)"
  shows "aggregate_is_sum (snd (ingest_row fromisoformat ps rs default_dt row state))"
proof -
  have "cand_region c \<noteq> ''Aggregate''" if "c \<in> set (extract_transactions ps rs row default_dt)" for c
    using extract_transactions_vocabulary(2) [OF that] REGIONS_facts by auto
  with assms show ?thesis
    unfolding ingest_row_def by (simp add: fold_ingest_preserves)
qed

lemma fold_ingest_row_preserves:
  "aggregate_is_sum (snd state) \<Longrightarrow>
   aggregate_is_sum (snd (fold (ingest_row fromisoformat ps rs default_dt) rows state))"
  by (induction rows arbitrary: state) (simp_all add: ingest_row_preserves)

lemma counter_value_new:
  "counter_value (new_RegionSummary :: 'd RegionSummary) key = 0"
  "counter_value new_ProviderSummary key = 0"
  by (cases key; simp add: counter_value_def new_RegionSummary_def new_ProviderSummary_def
      count_of_def messages_of_def)+

lemma aggregate_is_sum_initial:
  "aggregate_is_sum [''Aggregate'' \<mapsto> (new_RegionSummary :: 'd RegionSummary)]"
proof -
  have "region_of [''Aggregate'' \<mapsto> (new_RegionSummary :: 'd RegionSummary)] r = new_RegionSummary" for r
    by (simp add: region_of_def)
  moreover have "provider_of (new_RegionSummary :: 'd RegionSummary) p = new_ProviderSummary" for p
    by (simp add: provider_of_def new_RegionSummary_def)
  moreover have "times (new_RegionSummary :: 'd RegionSummary) = []"
    by (simp add: new_RegionSummary_def)
  ultimately show ?thesis
    unfolding aggregate_is_sum_def by (simp add: counter_value_new REGIONS_def)
qed

text \<open>
  Claim C1. Whatever file is parsed (whatever the timestamp parser and the iteration
  orders), in the summaries \<open>parse_csv\<close> returns every status count, channel count and
  (status, message) count of the aggregate equals the sum of that count over the five
  regions, the same holds for each provider summary of the aggregate against the provider
  summaries of the regions, and the timestamps of the aggregate are exactly those of the
  five regions. The records ingested are those \<open>extract_transactions\<close> yields, whose
  region is one of the five.
\<close>

theorem aggregate_equals_sum_of_regions:
  assumes "parse_csv fromisoformat ps rs reader = Inr (transactions, summaries)"
  shows "aggregate_is_sum summaries"
proof (cases reader)
  case Nil
  with assms show ?thesis by (simp add: parse_csv_def)
next
  case (Cons header rows)
  with assms have "summaries =
      snd (fold (ingest_row fromisoformat ps rs (default_timestamp header)) rows
             ([], [''Aggregate'' \<mapsto> new_RegionSummary]))"
    by (simp add: parse_csv_def)
  then show ?thesis
    by (simp add: fold_ingest_row_preserves aggregate_is_sum_initial)
qed

text \<open>
  A small file for the witnesses: a header with no date, then the row of two
  transactions. The providers are iterated in alphabetical order, the regions in the
  order of \<open>REGIONS\<close>, and every timestamp parses (to itself).
\<close>

definition providers_in_order :: "string list" where
  "providers_in_order = [''cellulant'', ''hubtel'', ''interswitch'', ''ozow'', ''paystack'',
                         ''spotflow_accounts'', ''tembo_plus'']"

definition two_transactions_file :: "string list list" where
  "two_transactions_file = [[''provider'', ''region''], two_transactions_row]"

lemma region_of_initial:
  "region_of [''Aggregate'' \<mapsto> new_RegionSummary] r = new_RegionSummary"
  by (simp add: region_of_def)

lemma two_transactions_normalised:
  "normalise_message ''Payment received'' = ''Payment received''"
  "normalise_message ''Insufficient funds'' = ''Insufficient funds''"
  by code_simp+

lemma two_transactions_vocabulary:
  "''Nigeria'' \<in> REGION_SET" "''Ghana'' \<in> REGION_SET" "''successful'' \<in> STATUSES"
  "''failed'' \<in> STATUSES" "''card'' \<in> CHANNELS" "''mobile_money'' \<in> CHANNELS"
  by (simp_all add: REGION_SET_def REGIONS_def STATUSES_def CHANNELS_def)

lemma resolve_timestamp_Some:
  "resolve_timestamp Some s = Some (Some (replace_char CHR ''Z'' DEFAULT_TZ_SUFFIX s))"
  by (simp add: resolve_timestamp_def)

theorem aggregate_equals_sum_of_regions_witness:
  "\<exists>transactions summaries.
     parse_csv Some providers_in_order REGIONS two_transactions_file
       = Inr (transactions, summaries) \<and>
     length transactions = 2 \<and>
     counter_value (region_of summaries ''Aggregate'') (Status ''failed'') = 1 \<and>
     counter_value (region_of summaries ''Ghana'') (Status ''failed'') = 1 \<and>
     aggregate_is_sum summaries"
proof -
  obtain transactions summaries
    where p: "parse_csv Some providers_in_order REGIONS two_transactions_file
                = Inr (transactions, summaries)"
    by (cases "parse_csv Some providers_in_order REGIONS two_transactions_file")
       (auto simp: parse_csv_def two_transactions_file_def)
  have ne: "two_transactions_row \<noteq> []" by (simp add: two_transactions_row_def)
  from p have t: "transactions =
      fst (fold (ingest Some)
             (extract_transactions providers_in_order REGIONS two_transactions_row
                (default_timestamp [''provider'', ''region'']))
             ([], [''Aggregate'' \<mapsto> new_RegionSummary]))"
    and s: "summaries =
      snd (fold (ingest Some)
             (extract_transactions providers_in_order REGIONS two_transactions_row
                (default_timestamp [''provider'', ''region'']))
             ([], [''Aggregate'' \<mapsto> new_RegionSummary]))"
    by (simp_all add: parse_csv_def ingest_row_def ne two_transactions_file_def)
  have "length transactions = 2"
    unfolding t
    by (simp add: extract_transactions_def two_transactions_scan resolve_timestamp_Some
        two_transactions_vocabulary two_transactions_normalised Let_def)
  moreover have "counter_value (region_of summaries ''Aggregate'') (Status ''failed'') = 1"
    unfolding s
    by (simp add: extract_transactions_def two_transactions_scan resolve_timestamp_Some
        two_transactions_vocabulary two_transactions_normalised Let_def
        region_of_record_transaction counter_value_simps counter_value_count_transaction
        hits_def counter_value_new region_of_initial)
  moreover have "counter_value (region_of summaries ''Ghana'') (Status ''failed'') = 1"
    unfolding s
    by (simp add: extract_transactions_def two_transactions_scan resolve_timestamp_Some
        two_transactions_vocabulary two_transactions_normalised Let_def
        region_of_record_transaction counter_value_simps counter_value_count_transaction
        hits_def counter_value_new region_of_initial)
  moreover have "aggregate_is_sum summaries"
    using aggregate_equals_sum_of_regions [OF p] .
  ultimately show ?thesis using p by blast
qed

section \<open>Channels of extracted records\<close>

definition transaction_channel :: "'d transaction \<Rightarrow> string" where
  "transaction_channel t =
     (case t of (provider, region, status, channel, norm_message, dt, customer) \<Rightarrow> channel)"

definition channels_closed :: "'d transaction list \<times> 'd summaries \<Rightarrow> bool" where
  "channels_closed state =
     ((\<forall>t \<in> set (fst state). transaction_channel t \<in> CHANNELS) \<and>
      (\<forall>region. dom (channel_counts (region_of (snd state) region)) \<subseteq> CHANNELS \<and>
         (\<forall>provider.
            dom (channel_counts (provider_of (region_of (snd state) region) provider))
              \<subseteq> CHANNELS)))"


lemma ingest_rejects:
  assumes "(region \<notin> REGION_SET \<and> region \<noteq> ''Aggregate'') \<or> status \<notin> STATUSES \<or>
           resolve_timestamp fromisoformat payment_date = None"
  shows "ingest fromisoformat (provider, region, status, channel, message, payment_date, customer)
           state = state"
  using assms by (cases state) (auto simp: Let_def)

lemma channel_counts_simps:
  "channel_counts (update_provider q f summary) = channel_counts summary"
  "channel_counts (append_time t summary) = channel_counts summary"
  by (simp_all add: update_provider_def append_time_def)

lemma channel_counts_count_transaction:
  fixes summary :: "'a ProviderSummary_scheme"
  shows "channel_counts (count_transaction status channel norm_message summary) =
         increment (channel_counts summary) channel"
  by (simp add: count_transaction_def)

lemma dom_increment: "dom (increment counter key) = insert key (dom counter)"
  by (simp add: increment_def)

text \<open>What one accepted transaction writes to a summary it touches.\<close>

definition written ::
  "string \<Rightarrow> string \<Rightarrow> string \<Rightarrow> string \<Rightarrow> 'd option \<Rightarrow> 'd RegionSummary \<Rightarrow> 'd RegionSummary" where
  "written provider status channel norm_message dt summary =
     update_provider provider (count_transaction status channel norm_message)
       (count_transaction status channel norm_message
          ((case dt of Some t \<Rightarrow> append_time t | None \<Rightarrow> id) summary))"

lemma region_of_record_transaction_written:
  assumes "region \<noteq> ''Aggregate''"
  shows "region_of (record_transaction provider region status channel norm_message dt summaries) r =
     (if r = region \<or> r = ''Aggregate''
      then written provider status channel norm_message dt (region_of summaries r)
      else region_of summaries r)"
  unfolding written_def by (rule region_of_record_transaction [OF assms])

lemma channel_counts_written:
  "channel_counts (written provider status channel norm_message dt summary) =
     increment (channel_counts summary) channel"
  by (cases dt)
     (simp_all add: written_def channel_counts_simps channel_counts_count_transaction)

lemma provider_channel_counts_written:
  "channel_counts (provider_of (written provider status channel norm_message dt summary) p) =
     (if p = provider then increment (channel_counts (provider_of summary provider)) channel
      else channel_counts (provider_of summary p))"
  by (cases dt)
     (simp_all add: written_def provider_of_simps channel_counts_count_transaction)

lemma record_transaction_channels:
  assumes ne: "region \<noteq> ''Aggregate''" and ch: "channel \<in> CHANNELS"
    and reg: "\<And>r. dom (channel_counts (region_of summaries r)) \<subseteq> CHANNELS"
    and pro: "\<And>r p. dom (channel_counts (provider_of (region_of summaries r) p)) \<subseteq> CHANNELS"
  shows "dom (channel_counts
                (region_of (record_transaction provider region status channel norm_message dt
                              summaries) r)) \<subseteq> CHANNELS"
    and "dom (channel_counts
                (provider_of
                   (region_of (record_transaction provider region status channel norm_message dt
                                 summaries) r) p)) \<subseteq> CHANNELS"
proof -
  show "dom (channel_counts
                (region_of (record_transaction provider region status channel norm_message dt
                              summaries) r)) \<subseteq> CHANNELS"
  proof (cases "r = region \<or> r = ''Aggregate''")
    case True
    then have "channel_counts
                (region_of (record_transaction provider region status channel norm_message dt
                              summaries) r) = increment (channel_counts (region_of summaries r)) channel"
      by (simp only: region_of_record_transaction_written [OF ne] channel_counts_written if_True)
    with ch reg [of r] show ?thesis by (simp add: dom_increment)
  next
    case False
    then have "region_of (record_transaction provider region status channel norm_message dt
                              summaries) r = region_of summaries r"
      by (simp only: region_of_record_transaction_written [OF ne] if_False)
    with reg [of r] show ?thesis by simp
  qed
  show "dom (channel_counts
                (provider_of
                   (region_of (record_transaction provider region status channel norm_message dt
                                 summaries) r) p)) \<subseteq> CHANNELS"
  proof (cases "r = region \<or> r = ''Aggregate''")
    case True
    then have e: "channel_counts (provider_of
                (region_of (record_transaction provider region status channel norm_message dt
                              summaries) r) p) =
       (if p = provider then increment (channel_counts (provider_of (region_of summaries r) provider)) channel
        else channel_counts (provider_of (region_of summaries r) p))"
      by (simp only: region_of_record_transaction_written [OF ne] provider_channel_counts_written if_True)
    show ?thesis
    proof (cases "p = provider")
      case True
      with e ch pro [of r provider] show ?thesis by (simp add: dom_increment)
    next
      case False
      with e pro [of r p] show ?thesis by simp
    qed
  next
    case False
    then have "region_of (record_transaction provider region status channel norm_message dt
                              summaries) r = region_of summaries r"
      by (simp only: region_of_record_transaction_written [OF ne] if_False)
    with pro [of r p] show ?thesis by simp
  qed
qed

lemma ingest_channels_closed:
  assumes "channels_closed state" and "cand_region c \<in> REGION_SET" and "cand_channel c \<in> CHANNELS"
  shows "channels_closed (ingest fromisoformat c state)"
proof -
  obtain provider region status channel message payment_date customer
    where c: "c = (provider, region, status, channel, message, payment_date, customer)"
    by (cases c)
  obtain transactions summaries where s: "state = (transactions, summaries)"
    by (cases state)
  from assms c have region: "region \<in> REGION_SET" and channel: "channel \<in> CHANNELS"
    by (simp_all add: cand_region_def cand_channel_def)
  from region have ne: "region \<noteq> ''Aggregate''" using REGIONS_facts by auto
  show ?thesis
  proof (cases "status \<in> STATUSES \<and> resolve_timestamp fromisoformat payment_date \<noteq> None")
    case True
    then obtain dt where dt: "resolve_timestamp fromisoformat payment_date = Some dt" by auto
    from True region dt channel
    have "ingest fromisoformat c state =
        (transactions @ [(provider, region, status, channel, normalise_message message, dt, customer)],
         record_transaction provider region status channel (normalise_message message) dt summaries)"
      unfolding c s by (simp add: Let_def)
    moreover from assms(1) s have reg: "\<And>r. dom (channel_counts (region_of summaries r)) \<subseteq> CHANNELS"
      and pro: "\<And>r p. dom (channel_counts (provider_of (region_of summaries r) p)) \<subseteq> CHANNELS"
      and txs: "\<forall>t \<in> set transactions. transaction_channel t \<in> CHANNELS"
      by (simp_all add: channels_closed_def)
    moreover have "transaction_channel
        (provider, region, status, channel, normalise_message message, dt, customer) \<in> CHANNELS"
      using channel by (simp add: transaction_channel_def)
    moreover note record_transaction_channels [OF ne channel reg pro]
    ultimately show ?thesis
      unfolding channels_closed_def by simp
  next
    case False
    then have "ingest fromisoformat c state = state"
      unfolding c by (intro ingest_rejects) auto
    with assms(1) show ?thesis by simp
  qed
qed

lemma fold_ingest_channels_closed:
  assumes "\<And>c. c \<in> set cs \<Longrightarrow> cand_region c \<in> REGION_SET \<and> cand_channel c \<in> CHANNELS"
    and "channels_closed state"
  shows "channels_closed (fold (ingest fromisoformat) cs state)"
  using assms
  by (induction cs arbitrary: state) (simp_all add: ingest_channels_closed)

lemma ingest_row_channels_closed:
  assumes "channels_closed state"
  shows "channels_closed (ingest_row fromisoformat ps rs default_dt row state)"
  using assms extract_transactions_vocabulary(2,4) [of _ ps rs row default_dt]
  unfolding ingest_row_def by (simp add: fold_ingest_channels_closed)

lemma fold_ingest_row_channels_closed:
  "channels_closed state \<Longrightarrow>
   channels_closed (fold (ingest_row fromisoformat ps rs default_dt) rows state)"
  by (induction rows arbitrary: state) (simp_all add: ingest_row_channels_closed)

lemma channels_closed_initial:
  "channels_closed (([], [''Aggregate'' \<mapsto> new_RegionSummary])
                      :: 'd transaction list \<times> 'd summaries)"
proof -
  have "channel_counts (new_RegionSummary :: 'd RegionSummary) = Map.empty"
    and "channel_counts (provider_of (new_RegionSummary :: 'd RegionSummary) p) = Map.empty" for p
    by (simp_all add: new_RegionSummary_def provider_of_def new_ProviderSummary_def)
  then show ?thesis
    by (simp add: channels_closed_def region_of_initial)
qed

lemma other_not_channel: "''other'' \<notin> CHANNELS"
  by (simp add: CHANNELS_def)

text \<open>
  Claim C10. Every candidate \<open>extract_transactions\<close> yields has its channel in the closed
  set of four channels. Hence in what \<open>parse_csv\<close> returns every transaction has its
  channel in that set (the coercion to \<open>other\<close> is never made), and \<open>other\<close> is a key of
  the channel counts of no region summary and of no provider summary.
\<close>

theorem extracted_channel_never_other:
  "(\<forall>c \<in> set (extract_transactions ps rs row default_dt). cand_channel c \<in> CHANNELS) \<and>
   (parse_csv fromisoformat ps rs reader = Inr (transactions, summaries) \<longrightarrow>
      (\<forall>t \<in> set transactions. transaction_channel t \<in> CHANNELS) \<and>
      (\<forall>region summary. summaries region = Some summary \<longrightarrow>
         ''other'' \<notin> dom (channel_counts summary) \<and>
         (\<forall>provider bucket. providers summary provider = Some bucket \<longrightarrow>
            ''other'' \<notin> dom (channel_counts bucket))))"
proof (intro conjI impI)
  show "\<forall>c \<in> set (extract_transactions ps rs row default_dt). cand_channel c \<in> CHANNELS"
    using extract_transactions_vocabulary(4) by blast
next
  assume p: "parse_csv fromisoformat ps rs reader = Inr (transactions, summaries)"
  then obtain header rows where "reader = header # rows"
    by (cases reader) (simp_all add: parse_csv_def)
  with p have "fold (ingest_row fromisoformat ps rs (default_timestamp header)) rows
        ([], [''Aggregate'' \<mapsto> new_RegionSummary]) = (transactions, summaries)"
    by (simp add: parse_csv_def)
  then have closed: "channels_closed (transactions, summaries)"
    using fold_ingest_row_channels_closed
            [OF channels_closed_initial, of fromisoformat ps rs "default_timestamp header" rows]
    by simp
  then show "\<forall>t \<in> set transactions. transaction_channel t \<in> CHANNELS"
    by (simp add: channels_closed_def)
  show "\<forall>region summary. summaries region = Some summary \<longrightarrow>
         ''other'' \<notin> dom (channel_counts summary) \<and>
         (\<forall>provider bucket. providers summary provider = Some bucket \<longrightarrow>
            ''other'' \<notin> dom (channel_counts bucket))"
  proof (intro allI impI conjI)
    fix region summary
    assume r: "summaries region = Some summary"
    then have s: "region_of summaries region = summary" by (simp add: region_of_def)
    from closed have "dom (channel_counts (region_of summaries region)) \<subseteq> CHANNELS"
      unfolding channels_closed_def by simp
    with s have "dom (channel_counts summary) \<subseteq> CHANNELS" by simp
    with other_not_channel show "''other'' \<notin> dom (channel_counts summary)" by blast
    fix provider bucket
    assume "providers summary provider = Some bucket"
    then have b: "provider_of summary provider = bucket" by (simp add: provider_of_def)
    from closed
    have "dom (channel_counts (provider_of (region_of summaries region) provider)) \<subseteq> CHANNELS"
      unfolding channels_closed_def by simp
    with s b have "dom (channel_counts bucket) \<subseteq> CHANNELS" by simp
    with other_not_channel show "''other'' \<notin> dom (channel_counts bucket)" by blast
  qed
qed

lemma record_transaction_creates:
  "\<exists>summary. record_transaction provider region status channel norm_message dt summaries region
     = Some summary \<and>
     summary = region_of (record_transaction provider region status channel norm_message dt summaries) region"
  by (cases "region = ''Aggregate''")
     (simp_all add: record_transaction_def Let_def update_region_def region_of_def)

theorem extracted_channel_never_other_witness:
  "\<exists>transactions summaries summary.
     parse_csv Some providers_in_order REGIONS two_transactions_file
       = Inr (transactions, summaries) \<and>
     cand_channel (hd (extract_transactions providers_in_order REGIONS two_transactions_row []))
       = ''card'' \<and>
     summaries ''Ghana'' = Some summary \<and>
     ''mobile_money'' \<in> dom (channel_counts summary) \<and>
     ''other'' \<notin> dom (channel_counts summary)"
proof -
  obtain transactions summaries
    where p: "parse_csv Some providers_in_order REGIONS two_transactions_file
                = Inr (transactions, summaries)"
    by (cases "parse_csv Some providers_in_order REGIONS two_transactions_file")
       (auto simp: parse_csv_def two_transactions_file_def)
  have ne: "two_transactions_row \<noteq> []" by (simp add: two_transactions_row_def)
  from p have s: "summaries =
      snd (fold (ingest Some)
             (extract_transactions providers_in_order REGIONS two_transactions_row
                (default_timestamp [''provider'', ''region'']))
             ([], [''Aggregate'' \<mapsto> new_RegionSummary]))"
    by (simp_all add: parse_csv_def ingest_row_def ne two_transactions_file_def)
  define first where "first = record_transaction ''cellulant'' ''Nigeria'' ''successful'' ''card''
      ''Payment received'' (Some (replace_char CHR ''Z'' DEFAULT_TZ_SUFFIX ''2024-01-01T10:00:00''))
      [''Aggregate'' \<mapsto> (new_RegionSummary :: string RegionSummary)]"
  have s': "summaries = record_transaction ''cellulant'' ''Ghana'' ''failed'' ''mobile_money''
      ''Insufficient funds'' (Some (replace_char CHR ''Z'' DEFAULT_TZ_SUFFIX ''2024-01-02T11:00:00''))
      first"
    unfolding s first_def
    by (simp add: extract_transactions_def two_transactions_scan resolve_timestamp_Some
        two_transactions_vocabulary two_transactions_normalised Let_def)
  from record_transaction_creates [of "''cellulant''" "''Ghana''" "''failed''" "''mobile_money''"
      "''Insufficient funds''" "Some (replace_char CHR ''Z'' DEFAULT_TZ_SUFFIX ''2024-01-02T11:00:00'')" first]
  obtain summary where g: "summaries ''Ghana'' = Some summary"
    and r: "summary = region_of summaries ''Ghana''"
    unfolding s' by blast
  have "''mobile_money'' \<in> dom (channel_counts summary)"
    unfolding r s'
    by (simp add: region_of_record_transaction_written channel_counts_written dom_increment)
  moreover have "cand_channel (hd (extract_transactions providers_in_order REGIONS two_transactions_row []))
       = ''card''"
    by (simp add: extract_transactions_def two_transactions_scan cand_channel_def)
  moreover from extracted_channel_never_other [of providers_in_order REGIONS two_transactions_row "[]"
      Some two_transactions_file transactions summaries] p g
  have "''other'' \<notin> dom (channel_counts summary)" by blast
  ultimately show ?thesis using p g by blast
qed

section \<open>The validation gate\<close>









section \<open>Timestamp resolution\<close>
















section \<open>Truncation of the message\<close>













section \<open>Quotes and OTP prompts in the normalizer\<close>









text \<open>
  Claim C9. When the cleanup steps leave a text whose lowercase form starts with one of
  the OTP prompts, \<open>_normalise_message\<close> returns \<open>OTP verification required\<close>; so it
  does on the two messages of the specification.
\<close>

theorem otp_prompt_canonical:
  "(cleanup message = Some first_line \<and> is_otp_prompt (lower first_line) \<longrightarrow>
      normalise_message message = ''OTP verification required'') \<and>
   normalise_message ''KINDLY ENTER THE OTP SENT TO YOUR PHONE'' = ''OTP verification required'' \<and>
   normalise_message ''please enter the otp to continue'' = ''OTP verification required''"
proof (intro conjI impI)
  assume "cleanup message = Some first_line \<and> is_otp_prompt (lower first_line)"
  then show "normalise_message message = ''OTP verification required''"
    by (simp add: normalise_message_def finish_def)
next
  show "normalise_message ''KINDLY ENTER THE OTP SENT TO YOUR PHONE'' = ''OTP verification required''"
    by code_simp
next
  show "normalise_message ''please enter the otp to continue'' = ''OTP verification required''"
    by code_simp
qed

theorem otp_prompt_canonical_witness:
  "cleanup ''  Please_Input_The_OTP  sent by SMS. '' = Some ''Please Input The OTP sent by SMS'' \<and>
   is_otp_prompt (lower ''Please Input The OTP sent by SMS'') \<and>
   normalise_message ''  Please_Input_The_OTP  sent by SMS. '' = ''OTP verification required''"
proof -
  have "cleanup ''  Please_Input_The_OTP  sent by SMS. '' = Some ''Please Input The OTP sent by SMS'' \<and>
        is_otp_prompt (lower ''Please Input The OTP sent by SMS'')"
    by code_simp
  with otp_prompt_canonical [of "''  Please_Input_The_OTP  sent by SMS. ''"
      "''Please Input The OTP sent by SMS''"]
  show ?thesis by blast
qed

end
